theory Spec2Isabelle
  imports Complex_Main "HOL-Library.Word" "HOL-Library.Signed_Division"
begin

unbundle bit_operations_syntax

section \<open>Machine integers and panics\<close>

text \<open>
  Go's \<open>int\<close> is taken at its 64-bit width: \<open>+\<close> and \<open>*\<close> wrap around, \<open>sint\<close> reads the
  two's complement value. Every run-time panic of the program is a value of \<open>panic\<close>, and
  a function that can panic returns \<open>panic + 'a\<close>.
\<close>

datatype panic = DivideByZero | MakeSliceLen | SliceBounds | IndexOutOfRange

type_synonym go_int = "64 word"

definition andThen :: "panic + 'a \<Rightarrow> ('a \<Rightarrow> panic + 'b) \<Rightarrow> panic + 'b" where
  "andThen m f = (case m of Inl e \<Rightarrow> Inl e | Inr x \<Rightarrow> f x)"

text \<open>
  Integer division \<open>a / b\<close> of Go: it panics on a zero divisor and truncates towards zero
  otherwise (\<open>sdiv\<close> on \<open>int\<close>); the one quotient that does not fit wraps around.
\<close>

definition go_quo :: "go_int \<Rightarrow> go_int \<Rightarrow> panic + go_int" where
  "go_quo a b = (if b = 0 then Inl DivideByZero else Inr (word_of_int (sint a sdiv sint b)))"

section \<open>Timing model\<close>

text \<open>
  \<open>calculateMorseTiming\<close> (main.go, lines 43-58; the second file has the same function):
  the five results are \<open>dotDuration\<close>, \<open>dashDuration\<close>, \<open>elementGap\<close>, \<open>charGap\<close> and
  \<open>wordGap\<close>, in milliseconds.
\<close>

definition calculateMorseTiming ::
  "go_int \<Rightarrow> panic + (go_int \<times> go_int \<times> go_int \<times> go_int \<times> go_int)" where
  "calculateMorseTiming wpm0 =
     (let wpm = (if wpm0 \<le>s 0 then 20 else wpm0) in
      case go_quo 60000 (wpm * 50) of
        Inl e \<Rightarrow> Inl e
      | Inr timeUnit \<Rightarrow> Inr (timeUnit, timeUnit * 3, timeUnit, timeUnit * 3, timeUnit * 7))"

section \<open>Strings and runes\<close>

text \<open>
  A Go string is a sequence of bytes: \<open>string\<close>, with \<open>length\<close> for \<open>len\<close> and \<open>!\<close> for
  indexing. A rune is a code point. The program reads its text through two functions of
  Go's library, \<open>strings.ToUpper\<close> and the \<open>range\<close> loop over a string, which decode
  UTF-8; they are written out here as the library documents them.
\<close>

type_synonym rune = nat

definition RuneError :: rune where
  "RuneError = 0xFFFD"

definition isCont :: "nat \<Rightarrow> bool" where
  "isCont b \<longleftrightarrow> 0x80 \<le> b \<and> b \<le> 0xBF"

text \<open>
  \<open>utf8.DecodeRuneInString\<close>: the first rune of a string and its width in bytes. A byte
  that does not start a well-formed, shortest-form sequence decodes as \<open>RuneError\<close> of
  width 1.
\<close>

definition decodeRune :: "nat list \<Rightarrow> rune \<times> nat" where
  "decodeRune s =
     (case s of
        [] \<Rightarrow> (RuneError, 0)
      | s0 # rest \<Rightarrow>
          if s0 < 0x80 then (s0, 1)
          else if s0 < 0xC2 \<or> 0xF4 < s0 then (RuneError, 1)
          else
            let sz = (if s0 < 0xE0 then 2 else if s0 < 0xF0 then 3 else (4::nat));
                lo = (if s0 = 0xE0 then 0xA0 else if s0 = 0xF0 then 0x90 else 0x80);
                hi = (if s0 = 0xED then 0x9F else if s0 = 0xF4 then 0x8F else 0xBF)
            in if Suc (length rest) < sz then (RuneError, 1)
               else if rest ! 0 < lo \<or> hi < rest ! 0 then (RuneError, 1)
               else if sz \<le> 2 then ((s0 mod 32) * 64 + rest ! 0 mod 64, 2)
               else if \<not> isCont (rest ! 1) then (RuneError, 1)
               else if sz \<le> 3
                 then ((s0 mod 16) * 4096 + (rest ! 0 mod 64) * 64 + rest ! 1 mod 64, 3)
               else if \<not> isCont (rest ! 2) then (RuneError, 1)
               else ((s0 mod 8) * 262144 + (rest ! 0 mod 64) * 4096
                       + (rest ! 1 mod 64) * 64 + rest ! 2 mod 64, 4))"

text \<open>
  \<open>for i, char := range s\<close>: the pairs of a byte index and the rune that starts there.
\<close>

function rangeFrom :: "nat \<Rightarrow> nat list \<Rightarrow> (nat \<times> rune) list" where
  "rangeFrom i [] = []"
| "rangeFrom i (b # bs) =
     (i, fst (decodeRune (b # bs)))
       # rangeFrom (i + snd (decodeRune (b # bs))) (drop (snd (decodeRune (b # bs)) - 1) bs)"
  by pat_completeness auto
termination
  by (relation "measure (\<lambda>(i, bs). length bs)") simp_all

definition go_range :: "string \<Rightarrow> (nat \<times> rune) list" where
  "go_range s = rangeFrom 0 (map of_char s)"

text \<open>\<open>utf8.AppendRune\<close> and \<open>utf8.RuneLen\<close>.\<close>

definition encodeRune :: "rune \<Rightarrow> string" where
  "encodeRune r = map char_of
     (if r < 0x80 then [r]
      else if r < 0x800 then [0xC0 + r div 64, 0x80 + r mod 64]
      else if 0x10FFFF < r \<or> (0xD800 \<le> r \<and> r \<le> 0xDFFF) then [0xEF, 0xBF, 0xBD]
      else if r < 0x10000
        then [0xE0 + r div 4096, 0x80 + (r div 64) mod 64, 0x80 + r mod 64]
      else [0xF0 + r div 262144, 0x80 + (r div 4096) mod 64, 0x80 + (r div 64) mod 64,
            0x80 + r mod 64])"

definition RuneLen :: "rune \<Rightarrow> nat" where
  "RuneLen r = (if r < 0x80 then 1 else if r < 0x800 then 2 else if r < 0x10000 then 3 else 4)"

text \<open>
  \<open>unicode.ToUpper\<close>: the ASCII letters are handled by the function itself, every other
  rune by the table \<open>unicode.CaseRanges\<close>. The table is not part of this program; its
  upper-case column is the parameter \<open>tbl\<close>, and every theorem below holds for any table.
\<close>

definition unicode_ToUpper :: "(rune \<Rightarrow> rune) \<Rightarrow> rune \<Rightarrow> rune" where
  "unicode_ToUpper tbl r =
     (if r \<le> 0x7F then (if 0x61 \<le> r \<and> r \<le> 0x7A then r - 0x20 else r) else tbl r)"

text \<open>
  \<open>strings.Map\<close>: the first loop looks for the first rune that the mapping changes, or
  that is an invalid byte; if there is none the string is returned as it is. From that
  rune on, the second loop writes the encoding of every mapped rune.
\<close>

definition Map_rest :: "(rune \<Rightarrow> rune) \<Rightarrow> string \<Rightarrow> string" where
  "Map_rest mapping s = concat (map (\<lambda>(i, c). encodeRune (mapping c)) (go_range s))"

fun Map_scan :: "(rune \<Rightarrow> rune) \<Rightarrow> string \<Rightarrow> (nat \<times> rune) list \<Rightarrow> string" where
  "Map_scan mapping s [] = s"
| "Map_scan mapping s ((i, c) # items) =
     (let r = mapping c;
          width = (if c = RuneError then snd (decodeRune (map of_char (drop i s)))
                   else RuneLen c)
      in if r = c \<and> c \<noteq> RuneError then Map_scan mapping s items
         else if c = RuneError \<and> width \<noteq> 1 \<and> r = c then Map_scan mapping s items
         else take i s @ encodeRune r @ Map_rest mapping (drop (i + width) s))"

definition strings_Map :: "(rune \<Rightarrow> rune) \<Rightarrow> string \<Rightarrow> string" where
  "strings_Map mapping s = Map_scan mapping s (go_range s)"

text \<open>
  \<open>strings.ToUpper\<close>: a string of ASCII bytes is folded byte by byte, any other string
  goes through \<open>strings.Map\<close>.
\<close>

definition isASCII :: "string \<Rightarrow> bool" where
  "isASCII s = list_all (\<lambda>c. (of_char c :: nat) < 0x80) s"

definition upperByte :: "char \<Rightarrow> char" where
  "upperByte c =
     (if (0x61::nat) \<le> of_char c \<and> (of_char c :: nat) \<le> 0x7A
      then char_of (of_char c - (0x20::nat)) else c)"

definition strings_ToUpper :: "(rune \<Rightarrow> rune) \<Rightarrow> string \<Rightarrow> string" where
  "strings_ToUpper tbl s =
     (if isASCII s then map upperByte s else strings_Map (unicode_ToUpper tbl) s)"

text \<open>
  Three rows of \<open>unicode.CaseRanges\<close>, for the examples: U+0131 (dotless i) has the upper
  case U+0049, U+017F (long s) has U+0053, and U+0250 (turned a) has U+2C6F. The examples
  ask the table for no other rune than these and U+FFFD, which has no case.
\<close>

definition caseRows :: "rune \<Rightarrow> rune" where
  "caseRows r = (if r = 0x131 then 0x49 else if r = 0x17F then 0x53
                 else if r = 0x250 then 0x2C6F else r)"

section \<open>Samples and sample counts\<close>

text \<open>
  A sample is an \<open>int16\<close>. The functions below take the oscillator as a parameter
  \<open>tone\<close>: \<open>tone freq i\<close> is the value that the program computes as
  \<open>int16(math.Sin(2*math.Pi*float64(freq)*float64(i)/float64(sampleRate)) * 32767)\<close>.
  What is proved for any \<open>tone\<close> holds for the oscillator of the program, \<open>sineTone\<close>
  below.
\<close>

type_synonym sample = "16 word"

type_synonym oscillator = "go_int \<Rightarrow> nat \<Rightarrow> sample"

text \<open>
  The conversion \<open>int(x)\<close> of a \<open>float64\<close> truncates towards zero. The expression
  \<open>int(float64(d) * sampleRate / 1000)\<close> is applied to the five durations only, which are
  at most 420000 in absolute value. The product by 44100 is an integer below \<open>2 ^ 53\<close> and
  therefore exact; the quotient by 1000 is either an integer, and then exact, or at least
  0.001 away from every integer, far more than its rounding error. So the truncated
  \<open>float64\<close> value is the truncated real quotient, which is what the model computes.
\<close>

definition float_to_int :: "real \<Rightarrow> int" where
  "float_to_int x = (if 0 \<le> x then \<lfloor>x\<rfloor> else \<lceil>x\<rceil>)"

definition toSamples :: "go_int \<Rightarrow> int" where
  "toSamples d = float_to_int (real_of_int (sint d) * 44100 / 1000)"

text \<open>
  The oscillator of the program, with the sine and the product read over the real
  numbers: the product lies between -32767 and 32767, and the conversion to \<open>int16\<close>
  truncates it towards zero.
\<close>

definition sineTone :: oscillator where
  "sineTone freq i =
     word_of_int (float_to_int (sin (2 * pi * real_of_int (sint freq) * real i / 44100) * 32767))"

text \<open>\<open>make([]int16, n)\<close> panics on a negative length and gives \<open>n\<close> zeros otherwise.\<close>

definition makeSlice :: "int \<Rightarrow> panic + sample list" where
  "makeSlice n = (if n < 0 then Inl MakeSliceLen else Inr (replicate (nat n) 0))"

fun forEach :: "('a \<Rightarrow> 's \<Rightarrow> panic + 's) \<Rightarrow> 'a list \<Rightarrow> 's \<Rightarrow> panic + 's" where
  "forEach body [] s = Inr s"
| "forEach body (x # xs) s = andThen (body x s) (forEach body xs)"

section \<open>The symbol table\<close>

definition morseTable :: "(char \<times> string) list" where
  "morseTable =
    [(CHR ''A'', ''.-''), (CHR ''B'', ''-...''), (CHR ''C'', ''-.-.''), (CHR ''D'', ''-..''),
     (CHR ''E'', ''.''), (CHR ''F'', ''..-.''), (CHR ''G'', ''--.''), (CHR ''H'', ''....''),
     (CHR ''I'', ''..''), (CHR ''J'', ''.---''), (CHR ''K'', ''-.-''), (CHR ''L'', ''.-..''),
     (CHR ''M'', ''--''), (CHR ''N'', ''-.''), (CHR ''O'', ''---''), (CHR ''P'', ''.--.''),
     (CHR ''Q'', ''--.-''), (CHR ''R'', ''.-.''), (CHR ''S'', ''...''), (CHR ''T'', ''-''),
     (CHR ''U'', ''..-''), (CHR ''V'', ''...-''), (CHR ''W'', ''.--''), (CHR ''X'', ''-..-''),
     (CHR ''Y'', ''-.--''), (CHR ''Z'', ''--..''),
     (CHR ''0'', ''-----''), (CHR ''1'', ''.----''), (CHR ''2'', ''..---''),
     (CHR ''3'', ''...--''), (CHR ''4'', ''....-''), (CHR ''5'', ''.....''),
     (CHR ''6'', ''-....''), (CHR ''7'', ''--...''), (CHR ''8'', ''---..''),
     (CHR ''9'', ''----.''),
     (CHR ''/'', ''-..-.''), (CHR ''?'', ''..--..''), (CHR ''.'', ''.-.-.-''),
     (CHR '','', ''--..--'')]"

definition morseCodeMap :: "rune \<Rightarrow> string option" where
  "morseCodeMap char = map_of (map (\<lambda>(c, morse). (of_char c, morse)) morseTable) char"

definition space :: rune where
  "space = of_char (CHR '' '')"

definition dit :: rune where
  "dit = of_char (CHR ''.'')"

definition dah :: rune where
  "dah = of_char (CHR ''-'')"

text \<open>
  The test \<open>i < len(text)-1 && text[i+1] != ' '\<close> of both files. The index \<open>i\<close> comes from
  the loop over the upper-case string, and it is used on the bytes of \<open>text\<close> itself.
\<close>

definition gapFollows :: "string \<Rightarrow> nat \<Rightarrow> bool" where
  "gapFollows text i \<longleftrightarrow> int i < int (length text) - 1 \<and> text ! (i + 1) \<noteq> CHR '' ''"

section \<open>Synthesis with pre-generated samples (main.go)\<close>

record morseAudio =
  dotSamples :: "sample list"
  dashSamples :: "sample list"
  elementGap :: "sample list"
  charGap :: "sample list"
  wordGap :: "sample list"
  charSamples :: "rune \<Rightarrow> sample list option"

text \<open>The loops of lines 79-84: \<open>buf[i] = tone\<close> for every index of the buffer.\<close>

definition fillTone :: "oscillator \<Rightarrow> go_int \<Rightarrow> sample list \<Rightarrow> sample list" where
  "fillTone tone freq buf = fold (\<lambda>i b. b[i := tone freq i]) [0..<length buf] buf"

text \<open>The body and the loop of lines 90-99, for one entry of the table.\<close>

definition appendElement ::
  "sample list \<Rightarrow> sample list \<Rightarrow> sample list \<Rightarrow> string \<Rightarrow> nat \<times> rune \<Rightarrow> sample list
     \<Rightarrow> sample list" where
  "appendElement dot dash gap morse = (\<lambda>(i, element) samples.
     let samples1 = (if element = dit then samples @ dot
                     else if element = dah then samples @ dash else samples)
     in if int i < int (length morse) - 1 then samples1 @ gap else samples1)"

definition charAudio ::
  "sample list \<Rightarrow> sample list \<Rightarrow> sample list \<Rightarrow> string \<Rightarrow> sample list" where
  "charAudio dot dash gap morse = fold (appendElement dot dash gap morse) (go_range morse) []"

definition newMorseAudio :: "oscillator \<Rightarrow> go_int \<Rightarrow> go_int \<Rightarrow> panic + morseAudio" where
  "newMorseAudio tone wpm freq =
     andThen (calculateMorseTiming wpm)
       (\<lambda>(dotDuration, dashDuration, elementGapMs, charGapMs, wordGapMs).
     andThen (makeSlice (toSamples dotDuration)) (\<lambda>dot0.
     andThen (makeSlice (toSamples dashDuration)) (\<lambda>dash0.
     andThen (makeSlice (toSamples elementGapMs)) (\<lambda>elementGapAudio.
     andThen (makeSlice (toSamples charGapMs)) (\<lambda>charGapAudio.
     andThen (makeSlice (toSamples wordGapMs)) (\<lambda>wordGapAudio.
       let dot = fillTone tone freq dot0;
           dash = fillTone tone freq dash0
       in Inr \<lparr>dotSamples = dot, dashSamples = dash, elementGap = elementGapAudio,
               charGap = charGapAudio, wordGap = wordGapAudio,
               charSamples = (\<lambda>char. map_option (charAudio dot dash elementGapAudio)
                                        (morseCodeMap char))\<rparr>))))))"

text \<open>The pre-pass, lines 118-131: the body of the loop for one character.\<close>

definition countChar :: "morseAudio \<Rightarrow> string \<Rightarrow> nat \<times> rune \<Rightarrow> int \<Rightarrow> int" where
  "countChar morse text = (\<lambda>(i, char) totalSamples.
     if char = space then totalSamples + int (length (wordGap morse))
     else case charSamples morse char of
            None \<Rightarrow> totalSamples
          | Some samples \<Rightarrow>
              let total1 = totalSamples + int (length samples)
              in if gapFollows text i then total1 + int (length (charGap morse)) else total1)"

text \<open>
  The state of the generation pass: the buffer and the write position. \<open>dropped\<close> is not
  a variable of the program: it counts the samples that a write left out because the
  buffer was too short (\<open>copy\<close> stops at the end of its destination, the guard of the
  second file skips the assignment).
\<close>

record writer =
  samples :: "sample list"
  currentSample :: int
  dropped :: nat

text \<open>
  \<open>copy(samples[currentSample:], src)\<close>: the slice expression panics when the position is
  beyond the length, \<open>copy\<close> then writes as many elements as fit and returns their number.
\<close>

definition copy_at :: "sample list \<Rightarrow> int \<Rightarrow> sample list \<Rightarrow> panic + (sample list \<times> nat)" where
  "copy_at dst start src =
     (if start < 0 \<or> int (length dst) < start then Inl SliceBounds
      else let n = min (length dst - nat start) (length src)
           in Inr (take (nat start) dst @ take n src @ drop (nat start + n) dst, n))"

definition put :: "sample list \<Rightarrow> writer \<Rightarrow> panic + writer" where
  "put src w =
     andThen (copy_at (samples w) (currentSample w) src) (\<lambda>(buf, n).
       Inr (w\<lparr>samples := buf, currentSample := currentSample w + int (length src),
              dropped := dropped w + (length src - n)\<rparr>))"

text \<open>The generation pass, lines 137-154: the body of the loop for one character.\<close>

definition writeChar :: "morseAudio \<Rightarrow> string \<Rightarrow> nat \<times> rune \<Rightarrow> writer \<Rightarrow> panic + writer" where
  "writeChar morse text = (\<lambda>(i, char) w.
     if char = space then put (wordGap morse) w
     else case charSamples morse char of
            None \<Rightarrow> Inr w
          | Some cs \<Rightarrow>
              andThen (put cs w) (\<lambda>w1.
                if gapFollows text i then put (charGap morse) w1 else Inr w1))"

text \<open>
  \<open>generateMorseAudio\<close> of main.go. \<open>generateMorseAudio_run\<close> returns the final state of
  the generation pass together with \<open>totalSamples\<close>; the function itself returns the
  buffer and \<open>totalSamples\<close>.
\<close>

definition generateMorseAudio_run ::
  "(rune \<Rightarrow> rune) \<Rightarrow> oscillator \<Rightarrow> string \<Rightarrow> go_int \<Rightarrow> go_int \<Rightarrow> panic + (writer \<times> int)" where
  "generateMorseAudio_run tbl tone text wpm freq =
     andThen (newMorseAudio tone wpm freq) (\<lambda>morse.
       let items = go_range (strings_ToUpper tbl text);
           totalSamples = fold (countChar morse text) items 0
       in andThen (makeSlice totalSamples) (\<lambda>buf.
          andThen (forEach (writeChar morse text) items
                     \<lparr>samples = buf, currentSample = 0, dropped = 0\<rparr>) (\<lambda>w.
            Inr (w, totalSamples))))"

definition generateMorseAudio ::
  "(rune \<Rightarrow> rune) \<Rightarrow> oscillator \<Rightarrow> string \<Rightarrow> go_int \<Rightarrow> go_int \<Rightarrow> panic + (sample list \<times> int)" where
  "generateMorseAudio tbl tone text wpm freq =
     andThen (generateMorseAudio_run tbl tone text wpm freq) (\<lambda>(w, totalSamples).
       Inr (samples w, totalSamples))"

section \<open>Synthesis with tones generated in place (the second file)\<close>

record sampleCounts =
  dotCount :: int
  dashCount :: int
  elementGapSamples :: int
  charGapSamples :: int
  wordGapSamples :: int

text \<open>The pre-pass, lines 62-84: the inner loop over the elements and the outer body.\<close>

definition countElement :: "sampleCounts \<Rightarrow> string \<Rightarrow> nat \<times> rune \<Rightarrow> int \<Rightarrow> int" where
  "countElement n morse = (\<lambda>(j, element) totalSamples.
     let total1 = (if element = dit then totalSamples + dotCount n
                   else if element = dah then totalSamples + dashCount n else totalSamples)
     in if int j < int (length morse) - 1 then total1 + elementGapSamples n else total1)"

definition countChar_inline :: "sampleCounts \<Rightarrow> string \<Rightarrow> nat \<times> rune \<Rightarrow> int \<Rightarrow> int" where
  "countChar_inline n text = (\<lambda>(i, char) totalSamples.
     if char = space then totalSamples + wordGapSamples n
     else case morseCodeMap char of
            None \<Rightarrow> totalSamples
          | Some morse \<Rightarrow>
              let total1 = fold (countElement n morse) (go_range morse) totalSamples
              in if gapFollows text i then total1 + charGapSamples n else total1)"

text \<open>
  The generation pass, lines 90-122. \<open>toneSample\<close> is the body of the innermost loop: the
  guarded assignment \<open>samples[currentSample+k] = tone\<close>, which panics on a negative index.
\<close>

definition toneSample :: "oscillator \<Rightarrow> go_int \<Rightarrow> nat \<Rightarrow> writer \<Rightarrow> panic + writer" where
  "toneSample tone freq k w =
     (if currentSample w + int k < int (length (samples w))
      then if currentSample w + int k < 0 then Inl IndexOutOfRange
           else Inr (w\<lparr>samples := (samples w)[nat (currentSample w + int k) := tone freq k]\<rparr>)
      else Inr (w\<lparr>dropped := dropped w + 1\<rparr>))"

definition writeElement ::
  "oscillator \<Rightarrow> go_int \<Rightarrow> sampleCounts \<Rightarrow> string \<Rightarrow> nat \<times> rune \<Rightarrow> writer \<Rightarrow> panic + writer" where
  "writeElement tone freq n morse = (\<lambda>(j, element) w.
     let duration = (if element = dah then dashCount n else dotCount n)
     in andThen (forEach (toneSample tone freq) [0..<nat duration] w) (\<lambda>w1.
          let w2 = w1\<lparr>currentSample := currentSample w1 + duration\<rparr>
          in Inr (if int j < int (length morse) - 1
                  then w2\<lparr>currentSample := currentSample w2 + elementGapSamples n\<rparr>
                  else w2)))"

definition writeChar_inline ::
  "oscillator \<Rightarrow> go_int \<Rightarrow> sampleCounts \<Rightarrow> string \<Rightarrow> nat \<times> rune \<Rightarrow> writer \<Rightarrow> panic + writer" where
  "writeChar_inline tone freq n text = (\<lambda>(i, char) w.
     if char = space then Inr (w\<lparr>currentSample := currentSample w + wordGapSamples n\<rparr>)
     else case morseCodeMap char of
            None \<Rightarrow> Inr w
          | Some morse \<Rightarrow>
              andThen (forEach (writeElement tone freq n morse) (go_range morse) w) (\<lambda>w1.
                Inr (if gapFollows text i
                     then w1\<lparr>currentSample := currentSample w1 + charGapSamples n\<rparr>
                     else w1)))"

definition generateMorseAudio_inline_run ::
  "(rune \<Rightarrow> rune) \<Rightarrow> oscillator \<Rightarrow> string \<Rightarrow> go_int \<Rightarrow> go_int \<Rightarrow> panic + (writer \<times> int)" where
  "generateMorseAudio_inline_run tbl tone text wpm freq =
     andThen (calculateMorseTiming wpm)
       (\<lambda>(dotDuration, dashDuration, elementGapMs, charGapMs, wordGapMs).
       let n = \<lparr>dotCount = toSamples dotDuration, dashCount = toSamples dashDuration,
                elementGapSamples = toSamples elementGapMs,
                charGapSamples = toSamples charGapMs,
                wordGapSamples = toSamples wordGapMs\<rparr>;
           items = go_range (strings_ToUpper tbl text);
           totalSamples = fold (countChar_inline n text) items 0
       in andThen (makeSlice totalSamples) (\<lambda>buf.
          andThen (forEach (writeChar_inline tone freq n text) items
                     \<lparr>samples = buf, currentSample = 0, dropped = 0\<rparr>) (\<lambda>w.
            Inr (w, totalSamples))))"

definition generateMorseAudio_inline ::
  "(rune \<Rightarrow> rune) \<Rightarrow> oscillator \<Rightarrow> string \<Rightarrow> go_int \<Rightarrow> go_int \<Rightarrow> panic + (sample list \<times> int)" where
  "generateMorseAudio_inline tbl tone text wpm freq =
     andThen (generateMorseAudio_inline_run tbl tone text wpm freq) (\<lambda>(w, totalSamples).
       Inr (samples w, totalSamples))"

section \<open>Container encoder\<close>

type_synonym byte = "8 word"

text \<open>\<open>binary.Write\<close> with \<open>binary.LittleEndian\<close>, and the bytes of a string literal.\<close>

definition le16 :: "16 word \<Rightarrow> byte list" where
  "le16 x = [ucast x, ucast (drop_bit 8 x)]"

definition le32 :: "32 word \<Rightarrow> byte list" where
  "le32 x = [ucast x, ucast (drop_bit 8 x), ucast (drop_bit 16 x), ucast (drop_bit 24 x)]"

definition bytesOf :: "string \<Rightarrow> byte list" where
  "bytesOf s = map of_char s"

text \<open>\<open>writeWavHeader\<close>, lines 202-221: the buffer \<open>w\<close> with the header appended.\<close>

definition writeWavHeader :: "byte list \<Rightarrow> go_int \<Rightarrow> go_int \<Rightarrow> byte list" where
  "writeWavHeader w dataSize rate =
     w @ bytesOf ''RIFF'' @ le32 (ucast (36 + dataSize)) @ bytesOf ''WAVE''
       @ bytesOf ''fmt '' @ le32 16 @ le16 1 @ le16 1 @ le32 (ucast rate)
       @ le32 (ucast (rate * 2)) @ le16 2 @ le16 16
       @ bytesOf ''data'' @ le32 (ucast dataSize)"

text \<open>
  The container as \<open>main\<close> builds it, lines 171-178: the header for \<open>totalSamples*2\<close> bytes
  of data at the sample rate 44100, then every sample.
\<close>

definition wavBuffer :: "sample list \<times> int \<Rightarrow> byte list" where
  "wavBuffer = (\<lambda>(samples, totalSamples).
     fold (\<lambda>sample buf. buf @ le16 sample) samples
       (writeWavHeader [] (word_of_int totalSamples * 2) 44100))"

section \<open>The specification of the output, and notions for the proofs\<close>

text \<open>
  The time unit that \<open>calculateMorseTiming\<close> computes, and the five sample counts that
  both files derive from it.
\<close>

definition timeUnit :: "go_int \<Rightarrow> go_int" where
  "timeUnit wpm = word_of_int (60000 sdiv sint ((if wpm \<le>s 0 then 20 else wpm) * 50))"

definition countsFor :: "go_int \<Rightarrow> sampleCounts" where
  "countsFor t = \<lparr>dotCount = toSamples t, dashCount = toSamples (t * 3),
                  elementGapSamples = toSamples t, charGapSamples = toSamples (t * 3),
                  wordGapSamples = toSamples (t * 7)\<rparr>"

definition nonnegCounts :: "sampleCounts \<Rightarrow> bool" where
  "nonnegCounts n \<longleftrightarrow> 0 \<le> dotCount n \<and> 0 \<le> dashCount n \<and> 0 \<le> elementGapSamples n
     \<and> 0 \<le> charGapSamples n \<and> 0 \<le> wordGapSamples n"

definition negCounts :: "sampleCounts \<Rightarrow> bool" where
  "negCounts n \<longleftrightarrow> dotCount n < 0 \<and> dashCount n < 0 \<and> elementGapSamples n < 0
     \<and> charGapSamples n < 0 \<and> wordGapSamples n < 0"

text \<open>
  The pre-generated audio in closed form: a tone is the oscillator at the indices
  \<open>0, 1, 2, \<dots>\<close>, starting again from 0 in every dot and dash, and a gap is zeros.
\<close>

definition audioFor :: "oscillator \<Rightarrow> go_int \<Rightarrow> sampleCounts \<Rightarrow> morseAudio" where
  "audioFor tone freq n =
     \<lparr>dotSamples = map (tone freq) [0..<nat (dotCount n)],
      dashSamples = map (tone freq) [0..<nat (dashCount n)],
      elementGap = replicate (nat (elementGapSamples n)) 0,
      charGap = replicate (nat (charGapSamples n)) 0,
      wordGap = replicate (nat (wordGapSamples n)) 0,
      charSamples = (\<lambda>char. map_option
         (charAudio (map (tone freq) [0..<nat (dotCount n)])
                    (map (tone freq) [0..<nat (dashCount n)])
                    (replicate (nat (elementGapSamples n)) 0))
         (morseCodeMap char))\<rparr>"

text \<open>
  The output as the specification words it (character assembly): in the order of the
  characters, a space contributes the word gap; a character of the table contributes its
  samples, followed by a character gap when the gap test succeeds; any other character
  contributes nothing. \<open>rendering\<close> is the concatenation of these segments and
  \<open>synthesis\<close> the rendering of a text at a speed and a frequency.
\<close>

definition segment :: "morseAudio \<Rightarrow> string \<Rightarrow> nat \<times> rune \<Rightarrow> sample list" where
  "segment morse text = (\<lambda>(i, char).
     if char = space then wordGap morse
     else case charSamples morse char of
            None \<Rightarrow> []
          | Some cs \<Rightarrow> cs @ (if gapFollows text i then charGap morse else []))"

definition rendering :: "morseAudio \<Rightarrow> string \<Rightarrow> (nat \<times> rune) list \<Rightarrow> sample list" where
  "rendering morse text items = concat (map (segment morse text) items)"

definition synthesis ::
  "(rune \<Rightarrow> rune) \<Rightarrow> oscillator \<Rightarrow> string \<Rightarrow> go_int \<Rightarrow> go_int \<Rightarrow> sample list" where
  "synthesis tbl tone text wpm freq =
     rendering (audioFor tone freq (countsFor (timeUnit wpm))) text
       (go_range (strings_ToUpper tbl text))"

text \<open>
  One element of a character: a tone of the dash length for a dash and of the dot length
  otherwise, and the element gap unless the element is the last one.
\<close>

definition elementAudio ::
  "oscillator \<Rightarrow> go_int \<Rightarrow> sampleCounts \<Rightarrow> string \<Rightarrow> nat \<times> rune \<Rightarrow> sample list" where
  "elementAudio tone freq n morse = (\<lambda>(j, element).
     map (tone freq) [0..<nat (if element = dah then dashCount n else dotCount n)]
       @ (if int j < int (length morse) - 1 then replicate (nat (elementGapSamples n)) 0
          else []))"


text \<open>
  A word of the symbol table is not empty and is made of dots and dashes only; an item
  is idle when the loops skip it.
\<close>

definition morseWord :: "string \<Rightarrow> bool" where
  "morseWord morse \<longleftrightarrow> morse \<noteq> [] \<and> list_all (\<lambda>c. c = CHR ''.'' \<or> c = CHR ''-'') morse"

definition ditsAndDahs :: "(nat \<times> rune) list \<Rightarrow> bool" where
  "ditsAndDahs items = list_all (\<lambda>(j, element). element = dit \<or> element = dah) items"

definition idle :: "nat \<times> rune \<Rightarrow> bool" where
  "idle item \<longleftrightarrow> snd item \<noteq> space \<and> morseCodeMap (snd item) = None"

text \<open>The value of a little-endian field, to read the container back.\<close>

definition uint_le :: "byte list \<Rightarrow> nat" where
  "uint_le bs = foldr (\<lambda>b n. unat b + 256 * n) bs 0"

text \<open>
  The two size fields of a container, read back: bytes 4 to 7 and bytes 40 to 43.
\<close>

definition riffSizeField :: "byte list \<Rightarrow> nat" where
  "riffSizeField buf = uint_le (take 4 (drop 4 buf))"

definition dataSizeField :: "byte list \<Rightarrow> nat" where
  "dataSizeField buf = uint_le (take 4 (drop 40 buf))"

text \<open>An oscillator for the examples: the sample is its own index.\<close>

definition ramp :: oscillator where
  "ramp freq i = of_nat i"

section \<open>Basic facts about the library functions\<close>

lemma andThen_Inr [simp]: "andThen (Inr x) f = f x"
  by (simp add: andThen_def)

lemma andThen_Inl [simp]: "andThen (Inl e) f = Inl e"
  by (simp add: andThen_def)

lemma andThen_eq_Inr: "andThen m f = Inr y \<longleftrightarrow> (\<exists>x. m = Inr x \<and> f x = Inr y)"
  by (cases m) simp_all

lemma forEach_append:
  "forEach body (xs @ ys) s = andThen (forEach body xs s) (forEach body ys)"
  by (induction xs arbitrary: s) (simp_all add: andThen_def split: sum.splits)

lemma fold_update_prefix:
  "k \<le> length buf \<Longrightarrow>
   fold (\<lambda>i b. b[i := f i]) [0..<k] buf = map f [0..<k] @ drop k buf"
proof (induction k)
  case 0
  then show ?case by simp
next
  case (Suc k)
  then have k: "k < length buf" by simp
  have "fold (\<lambda>i b. b[i := f i]) [0..<Suc k] buf = (map f [0..<k] @ drop k buf)[k := f k]"
    using Suc by simp
  also have "\<dots> = map f [0..<k] @ (drop k buf)[0 := f k]"
    by (simp add: list_update_append)
  also have "(drop k buf)[0 := f k] = f k # drop (Suc k) buf"
    using k by (simp add: Cons_nth_drop_Suc [symmetric])
  finally show ?case by simp
qed

lemma fillTone_map: "fillTone tone freq buf = map (tone freq) [0..<length buf]"
  by (simp add: fillTone_def fold_update_prefix)

lemma decodeRune_ascii: "b < 0x80 \<Longrightarrow> decodeRune (b # bs) = (b, 1)"
  by (simp add: decodeRune_def)

lemma rangeFrom_ascii:
  "list_all (\<lambda>b. b < 0x80) bs \<Longrightarrow> rangeFrom i bs = zip [i..<i + length bs] bs"
proof (induction bs arbitrary: i)
  case Nil
  then show ?case by simp
next
  case (Cons b bs)
  then have "rangeFrom i (b # bs) = (i, b) # rangeFrom (Suc i) bs"
    by (simp add: decodeRune_ascii)
  also have "\<dots> = (i, b) # zip [Suc i..<Suc i + length bs] bs"
    using Cons by simp
  also have "\<dots> = zip [i..<i + length (b # bs)] (b # bs)"
    by (simp del: upt_Suc add: upt_conv_Cons)
  finally show ?case .
qed

lemma go_range_ascii:
  "isASCII s \<Longrightarrow> go_range s = zip [0..<length s] (map of_char s)"
  using rangeFrom_ascii [of "map of_char s" 0]
  by (simp add: go_range_def isASCII_def list_all_iff)

section \<open>Facts about the symbol table\<close>

lemma morseTable_words: "list_all morseWord (map snd morseTable)"
  by (simp add: morseTable_def morseWord_def)

lemma morseCodeMap_word:
  assumes "morseCodeMap char = Some morse"
  shows "morseWord morse"
proof -
  from assms have "(char, morse) \<in> set (map (\<lambda>(c, morse). (of_char c, morse)) morseTable)"
    unfolding morseCodeMap_def by (rule map_of_SomeD)
  then obtain p where p: "p \<in> set morseTable" and "(char, morse) = (\<lambda>(c, morse). (of_char c, morse)) p"
    unfolding set_map by (rule imageE)
  then have "morse = snd p" by (simp add: case_prod_beta)
  with p have "morse \<in> set (map snd morseTable)" by simp
  with morseTable_words show ?thesis unfolding list_all_iff by (rule bspec)
qed

lemma morseWord_range:
  assumes "morseWord morse"
  shows "go_range morse = zip [0..<length morse] (map of_char morse)"
proof -
  have "(of_char c :: nat) < 0x80" if "c \<in> set morse" for c
  proof -
    from assms that have "c = CHR ''.'' \<or> c = CHR ''-''"
      by (simp add: morseWord_def list_all_iff)
    then show ?thesis by (elim disjE) simp_all
  qed
  then have "isASCII morse"
    by (simp add: isASCII_def list_all_iff)
  then show ?thesis by (rule go_range_ascii)
qed

lemma morseWord_elements:
  assumes "morseWord morse" and "(j, element) \<in> set (go_range morse)"
  shows "element = dit \<or> element = dah"
proof -
  from assms have "(j, element) \<in> set (zip [0..<length morse] (map of_char morse))"
    by (simp only: morseWord_range)
  then have "element \<in> set (map of_char morse)" by (rule set_zip_rightD)
  then obtain c where c: "c \<in> set morse" and e: "element = of_char c" by auto
  from assms(1) c have "c = CHR ''.'' \<or> c = CHR ''-''"
    by (simp add: morseWord_def list_all_iff)
  with e show ?thesis by (auto simp: dit_def dah_def)
qed

section \<open>Facts about sample counts\<close>

lemma float_to_int_div:
  "float_to_int (real_of_int a / 1000) = a sdiv 1000"
proof (cases "0 \<le> a")
  case True
  have "\<lfloor>real_of_int a / real_of_int 1000\<rfloor> = a div 1000"
    by (rule floor_divide_of_int_eq)
  with True show ?thesis
    by (cases "a = 0") (simp_all add: float_to_int_def signed_divide_int_def)
next
  case False
  then have neg: "a < 0" by simp
  have "\<lceil>real_of_int a / 1000\<rceil> = - \<lfloor>real_of_int (- a) / real_of_int 1000\<rfloor>"
    by (simp add: ceiling_def)
  also have "\<dots> = - ((- a) div 1000)"
    by (simp only: floor_divide_of_int_eq)
  finally show ?thesis
    using neg by (simp add: float_to_int_def signed_divide_int_def divide_neg_pos)
qed

lemma toSamples_sdiv: "toSamples d = (sint d * 44100) sdiv 1000"
  using float_to_int_div [of "sint d * 44100"] by (simp add: toSamples_def)

lemma toSamples_sign:
  "(0 \<le> toSamples d) = (0 \<le> sint d)"
proof -
  define a where "a = sint d * 44100"
  have t: "toSamples d = sgn a * (\<bar>a\<bar> div 1000)"
    by (simp add: toSamples_sdiv signed_divide_int_def a_def)
  show ?thesis
  proof (cases "0 \<le> sint d")
    case True
    then have "0 \<le> a" by (simp add: a_def)
    then have "0 \<le> sgn a * (\<bar>a\<bar> div 1000)"
      by (cases "a = 0") (simp_all add: pos_imp_zdiv_nonneg_iff)
    with True t show ?thesis by simp
  next
    case False
    then have neg: "a < 0" and "1000 \<le> \<bar>a\<bar>" by (simp_all add: a_def)
    then have "0 < \<bar>a\<bar> div 1000" by (simp only: pos_imp_zdiv_pos_iff)
    with neg have "sgn a * (\<bar>a\<bar> div 1000) < 0" by simp
    with False t show ?thesis by simp
  qed
qed

section \<open>Properties of the timing model\<close>

lemma sdiv_abs_le: "\<bar>(a::int) sdiv b\<bar> \<le> \<bar>a\<bar>"
proof -
  have nn: "0 \<le> \<bar>a\<bar> div \<bar>b\<bar>"
    by (cases "b = 0") (simp_all add: pos_imp_zdiv_nonneg_iff)
  have "\<bar>a sdiv b\<bar> = \<bar>sgn a\<bar> * \<bar>sgn b\<bar> * (\<bar>a\<bar> div \<bar>b\<bar>)"
    using nn by (simp add: signed_divide_int_def abs_mult)
  also have "\<dots> \<le> \<bar>a\<bar> div \<bar>b\<bar>"
    using nn by (cases "a = 0"; cases "b = 0"; simp)
  also have "\<dots> = int (nat \<bar>a\<bar> div nat \<bar>b\<bar>)"
    by (simp add: zdiv_int)
  also have "\<dots> \<le> int (nat \<bar>a\<bar>)"
    by (simp only: of_nat_le_iff div_le_dividend)
  finally show ?thesis by simp
qed

text \<open>
  For a positive \<open>wpm\<close> the divisor \<open>wpm * 50\<close> may wrap around, but it is never zero:
  \<open>2 ^ 64\<close> divides \<open>50 * k\<close> only if \<open>2 ^ 63\<close> divides \<open>k\<close>.
\<close>

lemma wpm50_nonzero:
  fixes wpm :: go_int
  assumes "0 <s wpm"
  shows "wpm * 50 \<noteq> 0"
proof
  assume z: "wpm * 50 = 0"
  define k where "k = sint wpm"
  have kpos: "0 < k" using assms by (simp add: k_def word_sless_alt)
  have klt: "k < 2 ^ 63" using sint_lt [of wpm] by (simp add: k_def)
  have "wpm * 50 = word_of_int (k * 50)" by (simp add: k_def)
  with z have "(word_of_int (k * 50) :: go_int) = 0" by simp
  then have "(2::int) ^ LENGTH(64) dvd k * 50" by (simp only: word_of_int_eq_0_iff)
  then have "(2::int) ^ 64 dvd k * 50" by simp
  then have "(2::int) ^ 63 * 2 dvd (k * 25) * 2" by (simp add: mult.assoc)
  then have d: "(2::int) ^ 63 dvd k * 25"
    by (simp only: mult_dvd_mono dvd_mult_cancel_right) simp
  have "coprime ((2::int) ^ 63) 25" by (rule coprime_power_left_iff [THEN iffD2]) simp
  with d have "(2::int) ^ 63 dvd k" by (simp add: coprime_dvd_mult_left_iff)
  with kpos have "2 ^ 63 \<le> k" by (rule zdvd_imp_le [rotated])
  with klt show False by simp
qed

lemma sint_small:
  fixes k :: int
  assumes "\<bar>k\<bar> \<le> 420000"
  shows "sint (word_of_int k :: go_int) = k"
proof -
  have "signed_take_bit 63 k = k"
    using assms by (intro signed_take_bit_int_eq_self) auto
  then show ?thesis by (simp add: signed_of_int)
qed

lemma go_quo_60000:
  assumes "go_quo 60000 d = Inr t"
  shows "\<bar>sint t\<bar> \<le> 60000"
proof -
  from assms have t: "t = word_of_int (60000 sdiv sint d)"
    by (auto simp: go_quo_def split: if_splits)
  have b: "\<bar>60000 sdiv sint d\<bar> \<le> 60000"
    using sdiv_abs_le [of 60000 "sint d"] by simp
  then have "sint t = 60000 sdiv sint d"
    unfolding t by (intro sint_small) simp
  with b show ?thesis by simp
qed

lemma sint_scale:
  fixes t :: go_int
  assumes "\<bar>sint t\<bar> \<le> 60000" and "c = 3 \<or> c = 7"
  shows "sint (t * word_of_int c) = sint t * c"
proof -
  have "t * word_of_int c = word_of_int (sint t * c)" by simp
  moreover have "\<bar>sint t * c\<bar> \<le> 420000" using assms by (auto simp: abs_mult)
  ultimately show ?thesis by (simp only: sint_small)
qed

text \<open>
  Claim C1. For every WPM greater than zero the timing computation returns (it does not
  panic), and the five durations it returns, read as signed integers, satisfy:
  dash = 3 * dot, element gap = dot, character gap = 3 * dot, word gap = 7 * dot.
  This holds also where \<open>wpm * 50\<close> wraps around: the time unit is then at most 60000 in
  absolute value, so none of the three products overflows.
\<close>

theorem timing_ratios:
  assumes "0 <s wpm"
  shows "\<exists>dot dash eg cg wg.
           calculateMorseTiming wpm = Inr (dot, dash, eg, cg, wg) \<and>
           sint dash = 3 * sint dot \<and> sint eg = sint dot \<and>
           sint cg = 3 * sint dot \<and> sint wg = 7 * sint dot"
proof -
  from assms have nz: "wpm * 50 \<noteq> 0" by (rule wpm50_nonzero)
  from assms have pos: "\<not> wpm \<le>s 0" by (simp add: word_sless_alt word_sle_eq)
  obtain t where q: "go_quo 60000 (wpm * 50) = Inr t"
    using nz by (simp add: go_quo_def)
  have b: "\<bar>sint t\<bar> \<le> 60000" using q by (rule go_quo_60000)
  have c: "calculateMorseTiming wpm = Inr (t, t * 3, t, t * 3, t * 7)"
    using pos q by (simp add: calculateMorseTiming_def)
  have "sint (t * 3) = 3 * sint t" using sint_scale [OF b, of 3] by simp
  moreover have "sint (t * 7) = 7 * sint t" using sint_scale [OF b, of 7] by simp
  ultimately show ?thesis using c by simp
qed

theorem timing_ratios_witness:
  "(0::go_int) <s 20 \<and> (\<exists>dot dash eg cg wg.
           calculateMorseTiming 20 = Inr (dot, dash, eg, cg, wg) \<and>
           sint dash = 3 * sint dot \<and> sint eg = sint dot \<and>
           sint cg = 3 * sint dot \<and> sint wg = 7 * sint dot)"
proof -
  have h: "(0::go_int) <s 20" by (simp add: word_sless_alt)
  show ?thesis using h timing_ratios [OF h] by simp
qed

text \<open>
  Claim C3. For every WPM less than or equal to zero the timing computation replaces it
  by 20 before computing: the result is the one for WPM = 20, and it is a proper result
  (60, 180, 60, 180 and 420 milliseconds), not a panic.
\<close>

theorem default_wpm:
  assumes "wpm \<le>s 0"
  shows "calculateMorseTiming wpm = calculateMorseTiming 20 \<and>
         calculateMorseTiming wpm = Inr (60, 180, 60, 180, 420)"
  using assms
  by (simp add: calculateMorseTiming_def go_quo_def signed_divide_int_def word_sle_eq)

theorem default_wpm_witness:
  "(- 7 :: go_int) \<le>s 0 \<and> calculateMorseTiming (- 7) = calculateMorseTiming 20 \<and>
   calculateMorseTiming (- 7) = Inr (60, 180, 60, 180, 420)"
proof -
  have h: "(- 7 :: go_int) \<le>s 0" by (simp add: word_sle_eq)
  show ?thesis by (rule conjI [OF h default_wpm [OF h]])
qed

section \<open>The timing unit and the pre-generated samples\<close>

lemma timing_total:
  "calculateMorseTiming wpm =
     Inr (timeUnit wpm, timeUnit wpm * 3, timeUnit wpm, timeUnit wpm * 3, timeUnit wpm * 7)"
proof -
  define w where "w = (if wpm \<le>s 0 then 20 else wpm)"
  have "0 <s w" by (simp add: w_def word_sless_alt word_sle_eq)
  then have "w * 50 \<noteq> 0" by (rule wpm50_nonzero)
  then show ?thesis
    by (simp add: calculateMorseTiming_def go_quo_def timeUnit_def w_def [symmetric] Let_def)
qed

lemma timeUnit_bound: "\<bar>sint (timeUnit wpm)\<bar> \<le> 60000"
proof -
  define w where "w = (if wpm \<le>s 0 then 20 else wpm)"
  have "0 <s w" by (simp add: w_def word_sless_alt word_sle_eq)
  then have "w * 50 \<noteq> 0" by (rule wpm50_nonzero)
  then have "go_quo 60000 (w * 50) = Inr (timeUnit wpm)"
    by (simp add: go_quo_def timeUnit_def w_def)
  then show ?thesis by (rule go_quo_60000)
qed

lemma timeUnit_times:
  "sint (timeUnit wpm * 3) = sint (timeUnit wpm) * 3"
  "sint (timeUnit wpm * 7) = sint (timeUnit wpm) * 7"
  using sint_scale [OF timeUnit_bound, of 3 wpm] sint_scale [OF timeUnit_bound, of 7 wpm]
  by simp_all

lemma counts_nonneg:
  assumes "0 \<le> sint (timeUnit wpm)"
  shows "0 \<le> toSamples (timeUnit wpm)" "0 \<le> toSamples (timeUnit wpm * 3)"
    "0 \<le> toSamples (timeUnit wpm * 7)"
  using assms by (simp_all add: toSamples_sign timeUnit_times)

lemma counts_neg:
  assumes "sint (timeUnit wpm) < 0"
  shows "toSamples (timeUnit wpm) < 0" "toSamples (timeUnit wpm * 3) < 0"
    "toSamples (timeUnit wpm * 7) < 0"
  using assms toSamples_sign [of "timeUnit wpm"] toSamples_sign [of "timeUnit wpm * 3"]
    toSamples_sign [of "timeUnit wpm * 7"]
  by (simp_all add: timeUnit_times)

text \<open>Where \<open>wpm * 50\<close> does not wrap around, the time unit is not negative.\<close>

lemma timeUnit_nonneg:
  assumes "sint wpm \<le> 184467440737095516"
  shows "0 \<le> sint (timeUnit wpm)"
proof -
  define w where "w = (if wpm \<le>s 0 then 20 else wpm)"
  have w: "0 < sint w" "sint w \<le> 184467440737095516"
    using assms by (simp_all add: w_def word_sle_eq)
  have "w * 50 = word_of_int (sint w * 50)" by simp
  moreover have "signed_take_bit 63 (sint w * 50) = sint w * 50"
    using w by (intro signed_take_bit_int_eq_self) simp_all
  ultimately have "sint (w * 50) = sint w * 50"
    by (simp only: signed_of_int) simp
  with w have pos: "0 < sint (w * 50)" by simp
  then have "0 \<le> 60000 div sint (w * 50)" by (simp add: pos_imp_zdiv_nonneg_iff)
  with pos have q: "0 \<le> 60000 sdiv sint (w * 50)" "\<bar>60000 sdiv sint (w * 50)\<bar> \<le> 60000"
    using sdiv_abs_le [of 60000 "sint (w * 50)"] by (simp_all add: signed_divide_int_def)
  have "sint (timeUnit wpm) = 60000 sdiv sint (w * 50)"
    unfolding timeUnit_def w_def [symmetric] using q(2) by (intro sint_small) simp
  with q show ?thesis by simp
qed

lemma makeSlice_nonneg: "0 \<le> n \<Longrightarrow> makeSlice n = Inr (replicate (nat n) 0)"
  by (simp add: makeSlice_def)

lemma makeSlice_neg: "n < 0 \<Longrightarrow> makeSlice n = Inl MakeSliceLen"
  by (simp add: makeSlice_def)

lemma newMorseAudio_nonneg:
  assumes "0 \<le> sint (timeUnit wpm)"
  shows "newMorseAudio tone wpm freq = Inr (audioFor tone freq (countsFor (timeUnit wpm)))"
  using counts_nonneg [OF assms]
  by (simp add: newMorseAudio_def timing_total makeSlice_nonneg fillTone_map audioFor_def
      countsFor_def Let_def)

lemma newMorseAudio_neg:
  assumes "sint (timeUnit wpm) < 0"
  shows "newMorseAudio tone wpm freq = Inl MakeSliceLen"
  using counts_neg [OF assms]
  by (simp add: newMorseAudio_def timing_total makeSlice_neg)

section \<open>The generation pass of main.go\<close>

lemma countChar_segment:
  "countChar morse text item acc = acc + int (length (segment morse text item))"
  by (cases item) (simp add: countChar_def segment_def Let_def split: option.splits)

lemma fold_countChar:
  "fold (countChar morse text) items acc = acc + int (length (rendering morse text items))"
  by (induction items arbitrary: acc) (simp_all add: rendering_def countChar_segment)

lemma put_fits:
  assumes "length src \<le> length rest"
  shows "put src \<lparr>samples = pre @ rest, currentSample = int (length pre), dropped = d\<rparr> =
         Inr \<lparr>samples = (pre @ src) @ drop (length src) rest,
              currentSample = int (length (pre @ src)), dropped = d\<rparr>"
  using assms by (simp add: put_def copy_at_def min_absorb2 Let_def)

lemma writeChar_fits:
  assumes "length (segment morse text item) \<le> length rest"
  shows "writeChar morse text item
           \<lparr>samples = pre @ rest, currentSample = int (length pre), dropped = d\<rparr> =
         Inr \<lparr>samples = (pre @ segment morse text item)
                           @ drop (length (segment morse text item)) rest,
              currentSample = int (length (pre @ segment morse text item)), dropped = d\<rparr>"
proof (cases item)
  case (Pair i char)
  show ?thesis
  proof (cases "char = space")
    case True
    with Pair assms show ?thesis
      using put_fits [of "wordGap morse" rest pre d] by (simp add: writeChar_def segment_def)
  next
    case False
    show ?thesis
    proof (cases "charSamples morse char")
      case None
      with Pair False show ?thesis by (simp add: writeChar_def segment_def)
    next
      case (Some cs)
      show ?thesis
      proof (cases "gapFollows text i")
        case g: False
        with Pair False Some assms show ?thesis
          using put_fits [of cs rest pre d] by (simp add: writeChar_def segment_def)
      next
        case g: True
        with Pair False Some assms
        have l: "length cs \<le> length rest"
          "length (charGap morse) \<le> length (drop (length cs) rest)"
          by (simp_all add: segment_def)
        have "writeChar morse text item
                \<lparr>samples = pre @ rest, currentSample = int (length pre), dropped = d\<rparr> =
              put (charGap morse)
                \<lparr>samples = (pre @ cs) @ drop (length cs) rest,
                 currentSample = int (length (pre @ cs)), dropped = d\<rparr>"
          using Pair False Some g put_fits [OF l(1), of pre d] by (simp add: writeChar_def)
        also have "\<dots> =
              Inr \<lparr>samples = ((pre @ cs) @ charGap morse)
                       @ drop (length (charGap morse)) (drop (length cs) rest),
                   currentSample = int (length ((pre @ cs) @ charGap morse)), dropped = d\<rparr>"
          by (rule put_fits [OF l(2)])
        finally show ?thesis
          using Pair False Some g by (simp add: segment_def add.commute)
      qed
    qed
  qed
qed

lemma forEach_writeChar:
  assumes "length (rendering morse text items) \<le> length rest"
  shows "forEach (writeChar morse text) items
           \<lparr>samples = pre @ rest, currentSample = int (length pre), dropped = d\<rparr> =
         Inr \<lparr>samples = (pre @ rendering morse text items)
                           @ drop (length (rendering morse text items)) rest,
              currentSample = int (length (pre @ rendering morse text items)),
              dropped = d\<rparr>"
  using assms
proof (induction items arbitrary: pre rest)
  case Nil
  then show ?case by (simp add: rendering_def)
next
  case (Cons item items)
  define s where "s = segment morse text item"
  have r: "rendering morse text (item # items) = s @ rendering morse text items"
    by (simp add: rendering_def s_def)
  from Cons.prems have l1: "length s \<le> length rest"
    and l2: "length (rendering morse text items) \<le> length (drop (length s) rest)"
    by (simp_all add: r)
  have "forEach (writeChar morse text) (item # items)
          \<lparr>samples = pre @ rest, currentSample = int (length pre), dropped = d\<rparr> =
        forEach (writeChar morse text) items
          \<lparr>samples = (pre @ s) @ drop (length s) rest,
           currentSample = int (length (pre @ s)), dropped = d\<rparr>"
    using writeChar_fits [of morse "text" item rest pre d] l1 by (simp add: s_def)
  also have "\<dots> =
        Inr \<lparr>samples = ((pre @ s) @ rendering morse text items)
                 @ drop (length (rendering morse text items)) (drop (length s) rest),
             currentSample = int (length ((pre @ s) @ rendering morse text items)),
             dropped = d\<rparr>"
    by (rule Cons.IH [OF l2])
  finally show ?case by (simp add: r add.commute)
qed

lemma generateMorseAudio_run_nonneg:
  assumes "0 \<le> sint (timeUnit wpm)"
  shows "generateMorseAudio_run tbl tone text wpm freq =
           Inr (\<lparr>samples = synthesis tbl tone text wpm freq,
                 currentSample = int (length (synthesis tbl tone text wpm freq)),
                 dropped = 0\<rparr>,
                int (length (synthesis tbl tone text wpm freq)))"
proof -
  define morse where "morse = audioFor tone freq (countsFor (timeUnit wpm))"
  define out where "out = synthesis tbl tone text wpm freq"
  have out: "out = rendering morse text (go_range (strings_ToUpper tbl text))"
    by (simp add: out_def synthesis_def morse_def)
  have "forEach (writeChar morse text) (go_range (strings_ToUpper tbl text))
          \<lparr>samples = replicate (length out) 0, currentSample = 0, dropped = 0\<rparr> =
        Inr \<lparr>samples = out, currentSample = int (length out), dropped = 0\<rparr>"
    using forEach_writeChar [of morse "text" "go_range (strings_ToUpper tbl text)"
        "replicate (length out) 0" "[]" 0]
    by (simp add: out)
  then show ?thesis
    using newMorseAudio_nonneg [OF assms(1), of tone freq]
    by (simp add: generateMorseAudio_run_def fold_countChar makeSlice_nonneg Let_def
        morse_def [symmetric] out [symmetric] out_def [symmetric])
qed

lemma generateMorseAudio_run_neg:
  assumes "sint (timeUnit wpm) < 0"
  shows "generateMorseAudio_run tbl tone text wpm freq = Inl MakeSliceLen"
  using newMorseAudio_neg [OF assms] by (simp add: generateMorseAudio_run_def)

section \<open>The elements of a character\<close>

lemma dit_neq_dah: "dit \<noteq> dah"
  by (simp add: dit_def dah_def)

lemma morseWord_ditsAndDahs: "morseWord morse \<Longrightarrow> ditsAndDahs (go_range morse)"
  unfolding ditsAndDahs_def list_all_iff using morseWord_elements by blast

lemma ditsAndDahs_Cons:
  "ditsAndDahs ((j, element) # items) \<longleftrightarrow> (element = dit \<or> element = dah) \<and> ditsAndDahs items"
  by (simp add: ditsAndDahs_def)

text \<open>The samples of a character in the pre-generated table, element by element.\<close>

lemma fold_appendElement:
  assumes "ditsAndDahs items"
  shows "fold (appendElement (map (tone freq) [0..<nat (dotCount n)])
                 (map (tone freq) [0..<nat (dashCount n)])
                 (replicate (nat (elementGapSamples n)) 0) morse) items acc =
         acc @ concat (map (elementAudio tone freq n morse) items)"
  using assms
proof (induction items arbitrary: acc)
  case Nil
  then show ?case by simp
next
  case (Cons item items)
  obtain j element where item: "item = (j, element)" by (cases item)
  from Cons.prems item have e: "element = dit \<or> element = dah" and r: "ditsAndDahs items"
    by (simp_all add: ditsAndDahs_Cons)
  have "appendElement (map (tone freq) [0..<nat (dotCount n)])
          (map (tone freq) [0..<nat (dashCount n)])
          (replicate (nat (elementGapSamples n)) 0) morse item acc =
        acc @ elementAudio tone freq n morse item"
    using e dit_neq_dah by (auto simp: appendElement_def elementAudio_def item Let_def)
  then show ?case using Cons.IH [OF r] by simp
qed

lemma charAudio_elements:
  assumes "morseWord morse"
  shows "charAudio (map (tone freq) [0..<nat (dotCount n)])
           (map (tone freq) [0..<nat (dashCount n)])
           (replicate (nat (elementGapSamples n)) 0) morse =
         concat (map (elementAudio tone freq n morse) (go_range morse))"
  using fold_appendElement [OF morseWord_ditsAndDahs [OF assms], of tone freq n morse "[]"]
  by (simp add: charAudio_def)

text \<open>The pre-pass of the second file adds up the lengths of the same pieces.\<close>

lemma countElement_length:
  assumes "nonnegCounts n" and "element = dit \<or> element = dah"
  shows "countElement n morse (j, element) acc =
         acc + int (length (elementAudio tone freq n morse (j, element)))"
  using assms dit_neq_dah
  by (auto simp: countElement_def elementAudio_def nonnegCounts_def Let_def)

lemma fold_countElement:
  assumes "nonnegCounts n" and "ditsAndDahs items"
  shows "fold (countElement n morse) items acc =
         acc + int (length (concat (map (elementAudio tone freq n morse) items)))"
  using assms(2)
proof (induction items arbitrary: acc)
  case Nil
  then show ?case by simp
next
  case (Cons item items)
  obtain j element where item: "item = (j, element)" by (cases item)
  from Cons.prems item have e: "element = dit \<or> element = dah" and r: "ditsAndDahs items"
    by (simp_all add: ditsAndDahs_Cons)
  show ?case
    using countElement_length [OF assms(1) e, of morse j acc tone freq] Cons.IH [OF r]
    by (simp add: item)
qed

section \<open>The generation pass of the second file\<close>

lemma andThen_return [simp]: "andThen m Inr = m"
  by (cases m) simp_all

lemma forEach_Nil_fun [simp]: "forEach body [] = Inr"
  by (rule ext) simp

lemma toneSample_in:
  assumes "k < length rest"
  shows "toneSample tone freq k
           \<lparr>samples = pre @ rest, currentSample = int (length pre), dropped = d\<rparr> =
         Inr \<lparr>samples = pre @ rest[k := tone freq k], currentSample = int (length pre),
              dropped = d\<rparr>"
proof -
  have "nat (int (length pre) + int k) = length pre + k" by simp
  then show ?thesis
    using assms by (simp add: toneSample_def list_update_append del: nat_int)
qed

lemma forEach_toneSample:
  assumes "D \<le> length rest"
  shows "forEach (toneSample tone freq) [0..<D]
           \<lparr>samples = pre @ rest, currentSample = int (length pre), dropped = d\<rparr> =
         Inr \<lparr>samples = pre @ map (tone freq) [0..<D] @ drop D rest,
              currentSample = int (length pre), dropped = d\<rparr>"
  using assms
proof (induction D)
  case 0
  then show ?case by simp
next
  case (Suc D)
  then have D: "D < length rest" by simp
  have u: "(map (tone freq) [0..<D] @ drop D rest)[D := tone freq D] =
           map (tone freq) [0..<Suc D] @ drop (Suc D) rest"
    using D by (simp add: list_update_append Cons_nth_drop_Suc [symmetric])
  have "forEach (toneSample tone freq) [0..<Suc D]
          \<lparr>samples = pre @ rest, currentSample = int (length pre), dropped = d\<rparr> =
        toneSample tone freq D
          \<lparr>samples = pre @ (map (tone freq) [0..<D] @ drop D rest),
           currentSample = int (length pre), dropped = d\<rparr>"
    using Suc by (simp add: forEach_append)
  also have "\<dots> =
        Inr \<lparr>samples = pre @ (map (tone freq) [0..<D] @ drop D rest)[D := tone freq D],
             currentSample = int (length pre), dropped = d\<rparr>"
    using D by (intro toneSample_in) simp
  finally show ?case by (simp only: u)
qed

lemma writeElement_fits:
  assumes "nonnegCounts n"
    and "length (elementAudio tone freq n morse item) \<le> r"
  shows "writeElement tone freq n morse item
           \<lparr>samples = pre @ replicate r 0, currentSample = int (length pre), dropped = d\<rparr> =
         Inr \<lparr>samples = (pre @ elementAudio tone freq n morse item)
                           @ replicate (r - length (elementAudio tone freq n morse item)) 0,
              currentSample = int (length (pre @ elementAudio tone freq n morse item)),
              dropped = d\<rparr>"
proof -
  obtain j element where item: "item = (j, element)" by (cases item)
  define duration where "duration = (if element = dah then dashCount n else dotCount n)"
  define g where "g = nat (elementGapSamples n)"
  have dn: "0 \<le> duration" and gn: "int g = elementGapSamples n"
    using assms(1) by (simp_all add: duration_def g_def nonnegCounts_def)
  have D: "nat duration \<le> length (replicate r (0::sample))"
    using assms(2) by (simp add: item elementAudio_def duration_def)
  have tones: "forEach (toneSample tone freq) [0..<nat duration]
          \<lparr>samples = pre @ replicate r 0, currentSample = int (length pre), dropped = d\<rparr> =
        Inr \<lparr>samples = pre @ map (tone freq) [0..<nat duration] @ replicate (r - nat duration) 0,
             currentSample = int (length pre), dropped = d\<rparr>"
    using forEach_toneSample [OF D, of tone freq pre d] by simp
  show ?thesis
  proof (cases "int j < int (length morse) - 1")
    case False
    with tones dn show ?thesis
      by (simp add: writeElement_def item elementAudio_def duration_def [symmetric] Let_def)
  next
    case True
    with assms(2) have "nat duration + g \<le> r"
      by (simp add: item elementAudio_def duration_def g_def)
    then have "replicate (r - nat duration) (0::sample) =
               replicate g 0 @ replicate (r - (nat duration + g)) 0"
      by (simp add: replicate_add [symmetric])
    with tones dn gn True show ?thesis
      by (simp add: writeElement_def item elementAudio_def duration_def [symmetric]
          g_def [symmetric] Let_def add.assoc)
  qed
qed

lemma forEach_writeElement:
  assumes "nonnegCounts n"
    and "length (concat (map (elementAudio tone freq n morse) items)) \<le> r"
  shows "forEach (writeElement tone freq n morse) items
           \<lparr>samples = pre @ replicate r 0, currentSample = int (length pre), dropped = d\<rparr> =
         Inr \<lparr>samples = (pre @ concat (map (elementAudio tone freq n morse) items))
                 @ replicate (r - length (concat (map (elementAudio tone freq n morse) items))) 0,
              currentSample =
                int (length (pre @ concat (map (elementAudio tone freq n morse) items))),
              dropped = d\<rparr>"
  using assms(2)
proof (induction items arbitrary: pre r)
  case Nil
  then show ?case by simp
next
  case (Cons item items)
  define s where "s = elementAudio tone freq n morse item"
  define t where "t = concat (map (elementAudio tone freq n morse) items)"
  from Cons.prems have l1: "length s \<le> r" and l2: "length t \<le> r - length s"
    by (simp_all add: s_def t_def)
  have "forEach (writeElement tone freq n morse) (item # items)
          \<lparr>samples = pre @ replicate r 0, currentSample = int (length pre), dropped = d\<rparr> =
        forEach (writeElement tone freq n morse) items
          \<lparr>samples = (pre @ s) @ replicate (r - length s) 0,
           currentSample = int (length (pre @ s)), dropped = d\<rparr>"
    using writeElement_fits [OF assms(1), of tone freq morse item r pre d] l1
    by (simp add: s_def)
  also have "\<dots> =
        Inr \<lparr>samples = ((pre @ s) @ t) @ replicate (r - length s - length t) 0,
             currentSample = int (length ((pre @ s) @ t)), dropped = d\<rparr>"
    using Cons.IH [of "r - length s" "pre @ s"] l2 by (simp only: t_def)
  finally show ?case by (simp add: s_def t_def add.assoc)
qed

lemma charSamples_audioFor:
  assumes "morseCodeMap char = Some morse"
  shows "charSamples (audioFor tone freq n) char =
         Some (concat (map (elementAudio tone freq n morse) (go_range morse)))"
  using assms charAudio_elements [OF morseCodeMap_word [OF assms], of tone freq n]
  by (simp add: audioFor_def)

lemma charSamples_audioFor_None:
  "morseCodeMap char = None \<Longrightarrow> charSamples (audioFor tone freq n) char = None"
  by (simp add: audioFor_def)

lemma countChar_inline_segment:
  assumes "nonnegCounts n"
  shows "countChar_inline n text item acc =
         acc + int (length (segment (audioFor tone freq n) text item))"
proof -
  obtain i char where item: "item = (i, char)" by (cases item)
  show ?thesis
  proof (cases "char = space")
    case True
    with assms show ?thesis
      by (simp add: item countChar_inline_def segment_def audioFor_def nonnegCounts_def)
  next
    case False
    show ?thesis
    proof (cases "morseCodeMap char")
      case None
      with False show ?thesis
        by (simp add: item countChar_inline_def segment_def charSamples_audioFor_None)
    next
      case (Some morse)
      have c: "fold (countElement n morse) (go_range morse) acc =
          acc + int (length (concat (map (elementAudio tone freq n morse) (go_range morse))))"
        using assms morseWord_ditsAndDahs [OF morseCodeMap_word [OF Some]]
        by (rule fold_countElement)
      have g: "int (length (charGap (audioFor tone freq n))) = charGapSamples n"
        using assms by (simp add: audioFor_def nonnegCounts_def)
      show ?thesis
        using False Some c g
        by (simp add: item countChar_inline_def segment_def charSamples_audioFor Let_def)
    qed
  qed
qed

lemma fold_countChar_inline:
  assumes "nonnegCounts n"
  shows "fold (countChar_inline n text) items acc =
         acc + int (length (rendering (audioFor tone freq n) text items))"
  by (induction items arbitrary: acc)
    (simp_all add: rendering_def countChar_inline_segment [OF assms, of _ _ _ tone freq])

lemma writeChar_inline_fits:
  assumes "nonnegCounts n"
    and "length (segment (audioFor tone freq n) text item) \<le> r"
  shows "writeChar_inline tone freq n text item
           \<lparr>samples = pre @ replicate r 0, currentSample = int (length pre), dropped = d\<rparr> =
         Inr \<lparr>samples = (pre @ segment (audioFor tone freq n) text item)
                 @ replicate (r - length (segment (audioFor tone freq n) text item)) 0,
              currentSample = int (length (pre @ segment (audioFor tone freq n) text item)),
              dropped = d\<rparr>"
proof -
  obtain i char where item: "item = (i, char)" by (cases item)
  show ?thesis
  proof (cases "char = space")
    case True
    define g where "g = nat (wordGapSamples n)"
    have gn: "int g = wordGapSamples n"
      using assms(1) by (simp add: g_def nonnegCounts_def)
    have s: "segment (audioFor tone freq n) text item = replicate g 0"
      using True by (simp add: item segment_def audioFor_def g_def)
    with assms(2) have "g \<le> r" by simp
    then have "replicate r (0::sample) = replicate g 0 @ replicate (r - g) 0"
      by (simp add: replicate_add [symmetric])
    then show ?thesis
      using True gn by (simp add: s) (simp add: item writeChar_inline_def)
  next
    case False
    show ?thesis
    proof (cases "morseCodeMap char")
      case None
      with False show ?thesis
        by (simp add: item writeChar_inline_def segment_def charSamples_audioFor_None)
    next
      case (Some morse)
      define cs where "cs = concat (map (elementAudio tone freq n morse) (go_range morse))"
      define g where "g = nat (charGapSamples n)"
      have gn: "int g = charGapSamples n"
        using assms(1) by (simp add: g_def nonnegCounts_def)
      have s: "segment (audioFor tone freq n) text item =
               cs @ (if gapFollows text i then replicate g 0 else [])"
        using False Some
        by (simp add: item segment_def charSamples_audioFor cs_def g_def) (simp add: audioFor_def)
      with assms(2) have l: "length cs \<le> r" by simp
      have w: "forEach (writeElement tone freq n morse) (go_range morse)
            \<lparr>samples = pre @ replicate r 0, currentSample = int (length pre), dropped = d\<rparr> =
          Inr \<lparr>samples = (pre @ cs) @ replicate (r - length cs) 0,
               currentSample = int (length (pre @ cs)), dropped = d\<rparr>"
        using forEach_writeElement [OF assms(1), of tone freq morse "go_range morse" r pre d] l
        by (simp add: cs_def)
      show ?thesis
      proof (cases "gapFollows text i")
        case g0: False
        with False Some w show ?thesis
          by (simp add: s) (simp add: item writeChar_inline_def)
      next
        case g1: True
        with s assms(2) have "length cs + g \<le> r" by simp
        then have "replicate (r - length cs) (0::sample) =
                   replicate g 0 @ replicate (r - (length cs + g)) 0"
          by (simp add: replicate_add [symmetric])
        with False Some w g1 gn show ?thesis
          by (simp add: s) (simp add: item writeChar_inline_def add.assoc)
      qed
    qed
  qed
qed

lemma forEach_writeChar_inline:
  assumes "nonnegCounts n"
    and "length (rendering (audioFor tone freq n) text items) \<le> r"
  shows "forEach (writeChar_inline tone freq n text) items
           \<lparr>samples = pre @ replicate r 0, currentSample = int (length pre), dropped = d\<rparr> =
         Inr \<lparr>samples = (pre @ rendering (audioFor tone freq n) text items)
                 @ replicate (r - length (rendering (audioFor tone freq n) text items)) 0,
              currentSample = int (length (pre @ rendering (audioFor tone freq n) text items)),
              dropped = d\<rparr>"
  using assms(2)
proof (induction items arbitrary: pre r)
  case Nil
  then show ?case by (simp add: rendering_def)
next
  case (Cons item items)
  define s where "s = segment (audioFor tone freq n) text item"
  define t where "t = rendering (audioFor tone freq n) text items"
  have st: "rendering (audioFor tone freq n) text (item # items) = s @ t"
    by (simp add: rendering_def s_def t_def)
  from Cons.prems have l1: "length s \<le> r" and l2: "length t \<le> r - length s"
    by (simp_all add: st)
  have "forEach (writeChar_inline tone freq n text) (item # items)
          \<lparr>samples = pre @ replicate r 0, currentSample = int (length pre), dropped = d\<rparr> =
        forEach (writeChar_inline tone freq n text) items
          \<lparr>samples = (pre @ s) @ replicate (r - length s) 0,
           currentSample = int (length (pre @ s)), dropped = d\<rparr>"
    using writeChar_inline_fits [OF assms(1), of tone freq "text" item r pre d] l1
    by (simp add: s_def)
  also have "\<dots> =
        Inr \<lparr>samples = ((pre @ s) @ t) @ replicate (r - length s - length t) 0,
             currentSample = int (length ((pre @ s) @ t)), dropped = d\<rparr>"
    using Cons.IH [of "r - length s" "pre @ s"] l2 by (simp only: t_def)
  finally show ?case by (simp add: st add.assoc)
qed

lemma nonnegCounts_countsFor:
  "0 \<le> sint (timeUnit wpm) \<Longrightarrow> nonnegCounts (countsFor (timeUnit wpm))"
  using counts_nonneg [of wpm] by (simp add: nonnegCounts_def countsFor_def)

lemma generateMorseAudio_inline_run_nonneg:
  assumes "0 \<le> sint (timeUnit wpm)"
  shows "generateMorseAudio_inline_run tbl tone text wpm freq =
           Inr (\<lparr>samples = synthesis tbl tone text wpm freq,
                 currentSample = int (length (synthesis tbl tone text wpm freq)),
                 dropped = 0\<rparr>,
                int (length (synthesis tbl tone text wpm freq)))"
proof -
  define n where "n = countsFor (timeUnit wpm)"
  define out where "out = synthesis tbl tone text wpm freq"
  have nn: "nonnegCounts n" using assms by (simp add: n_def nonnegCounts_countsFor)
  have out: "out = rendering (audioFor tone freq n) text (go_range (strings_ToUpper tbl text))"
    by (simp add: out_def synthesis_def n_def)
  have "forEach (writeChar_inline tone freq n text) (go_range (strings_ToUpper tbl text))
          \<lparr>samples = replicate (length out) 0, currentSample = 0, dropped = 0\<rparr> =
        Inr \<lparr>samples = out, currentSample = int (length out), dropped = 0\<rparr>"
    using forEach_writeChar_inline [OF nn, of tone freq "text"
        "go_range (strings_ToUpper tbl text)" "length out" "[]" 0]
    by (simp add: out)
  then show ?thesis
    using fold_countChar_inline [OF nn, of "text" "go_range (strings_ToUpper tbl text)" 0 tone freq]
    by (simp add: generateMorseAudio_inline_run_def timing_total makeSlice_nonneg Let_def
        n_def [symmetric] countsFor_def [symmetric] out [symmetric] out_def [symmetric])
qed

section \<open>The second file on negative sample counts\<close>

lemma negCounts_countsFor:
  "sint (timeUnit wpm) < 0 \<Longrightarrow> negCounts (countsFor (timeUnit wpm))"
  using counts_neg [of wpm] by (simp add: negCounts_def countsFor_def)

lemma countElement_neg:
  assumes "negCounts n" and "element = dit \<or> element = dah"
  shows "countElement n morse (j, element) acc < acc"
  using assms dit_neq_dah by (auto simp: countElement_def negCounts_def Let_def)

lemma fold_countElement_neg:
  assumes "negCounts n" and "ditsAndDahs items"
  shows "fold (countElement n morse) items acc \<le> acc
         \<and> (items \<noteq> [] \<longrightarrow> fold (countElement n morse) items acc < acc)"
  using assms(2)
proof (induction items arbitrary: acc)
  case Nil
  then show ?case by simp
next
  case (Cons item items)
  obtain j element where item: "item = (j, element)" by (cases item)
  from Cons.prems item have e: "element = dit \<or> element = dah" and r: "ditsAndDahs items"
    by (simp_all add: ditsAndDahs_Cons)
  have "fold (countElement n morse) items (countElement n morse (j, element) acc)
          \<le> countElement n morse (j, element) acc"
    using Cons.IH [OF r] by blast
  also have "\<dots> < acc" using assms(1) e by (rule countElement_neg)
  finally show ?case by (simp add: item)
qed

lemma morseWord_range_nonempty: "morseWord morse \<Longrightarrow> go_range morse \<noteq> []"
  by (simp add: morseWord_range) (simp add: morseWord_def)

lemma countChar_inline_neg:
  assumes "negCounts n"
  shows "countChar_inline n text item acc \<le> acc
         \<and> (countChar_inline n text item acc = acc \<longrightarrow> idle item)"
proof -
  obtain i char where item: "item = (i, char)" by (cases item)
  show ?thesis
  proof (cases "char = space")
    case True
    with assms show ?thesis by (simp add: item countChar_inline_def negCounts_def)
  next
    case False
    show ?thesis
    proof (cases "morseCodeMap char")
      case None
      with False show ?thesis by (simp add: item countChar_inline_def idle_def)
    next
      case (Some morse)
      have w: "morseWord morse" using Some by (rule morseCodeMap_word)
      have "fold (countElement n morse) (go_range morse) acc < acc"
        using fold_countElement_neg [OF assms morseWord_ditsAndDahs [OF w], of morse acc]
          morseWord_range_nonempty [OF w] by blast
      with assms False Some show ?thesis
        by (simp add: item countChar_inline_def negCounts_def Let_def)
    qed
  qed
qed

lemma writeChar_inline_idle: "idle item \<Longrightarrow> writeChar_inline tone freq n text item w = Inr w"
  by (cases item) (simp add: idle_def writeChar_inline_def)

lemma fold_countChar_inline_neg:
  assumes "negCounts n"
  shows "fold (countChar_inline n text) items acc \<le> acc
         \<and> (fold (countChar_inline n text) items acc = acc \<longrightarrow> list_all idle items)"
proof (induction items arbitrary: acc)
  case Nil
  then show ?case by simp
next
  case (Cons item items)
  define a where "a = countChar_inline n text item acc"
  have 1: "a \<le> acc" and 2: "a = acc \<longrightarrow> idle item"
    using countChar_inline_neg [OF assms, of "text" item acc] by (simp_all add: a_def)
  have 3: "fold (countChar_inline n text) items a \<le> a"
    and 4: "fold (countChar_inline n text) items a = a \<longrightarrow> list_all idle items"
    using Cons.IH [of a] by simp_all
  from 1 2 3 4 show ?case by (auto simp: a_def [symmetric])
qed

lemma forEach_idle:
  "list_all idle items \<Longrightarrow> forEach (writeChar_inline tone freq n text) items w = Inr w"
  by (induction items) (simp_all add: writeChar_inline_idle)

lemma generateMorseAudio_inline_run_neg:
  assumes "sint (timeUnit wpm) < 0"
    and "generateMorseAudio_inline_run tbl tone text wpm freq = Inr (w, tot)"
  shows "w = \<lparr>samples = [], currentSample = 0, dropped = 0\<rparr> \<and> tot = 0"
proof -
  define n where "n = countsFor (timeUnit wpm)"
  define items where "items = go_range (strings_ToUpper tbl text)"
  define t where "t = fold (countChar_inline n text) items 0"
  have neg: "negCounts n" using assms(1) by (simp add: n_def negCounts_countsFor)
  have run: "generateMorseAudio_inline_run tbl tone text wpm freq =
      andThen (makeSlice t) (\<lambda>buf.
        andThen (forEach (writeChar_inline tone freq n text) items
                   \<lparr>samples = buf, currentSample = 0, dropped = 0\<rparr>) (\<lambda>w. Inr (w, t)))"
    by (simp add: generateMorseAudio_inline_run_def timing_total Let_def
        countsFor_def [symmetric] n_def [symmetric] items_def [symmetric] t_def [symmetric])
  have le: "t \<le> 0" and idle: "t = 0 \<longrightarrow> list_all idle items"
    using fold_countChar_inline_neg [OF neg, of "text" items 0] by (simp_all add: t_def)
  have "\<not> t < 0"
    using assms(2) unfolding run by (auto simp: makeSlice_def)
  with le have t0: "t = 0" by simp
  with idle have "list_all idle items" by simp
  then have "forEach (writeChar_inline tone freq n text) items
               \<lparr>samples = [], currentSample = 0, dropped = 0\<rparr> =
             Inr \<lparr>samples = [], currentSample = 0, dropped = 0\<rparr>"
    by (rule forEach_idle)
  with assms(2) t0 show ?thesis
    unfolding run by (simp add: makeSlice_def)
qed

section \<open>Both passes compute the same length\<close>

lemma timeUnit_1200: "timeUnit 1200 = 1"
  by (simp add: timeUnit_def word_sle_eq signed_divide_int_def)

lemma toSamples_1: "toSamples 1 = 44" "toSamples 3 = 132" "toSamples 7 = 308"
  by (simp_all add: toSamples_sdiv signed_divide_int_def)

lemma morse_E: "morseCodeMap 69 = Some ''.''"
  by (simp add: morseCodeMap_def morseTable_def)

lemma items_E: "go_range (strings_ToUpper caseRows ''E'') = [(0, 69)]"
  by (simp add: strings_ToUpper_def isASCII_def upperByte_def go_range_def decodeRune_def)

lemma charAudio_dot: "charAudio dot dash gap ''.'' = dot"
  by (simp add: charAudio_def go_range_def decodeRune_def appendElement_def dit_def dah_def)

lemma synthesis_E: "synthesis caseRows ramp ''E'' 1200 600 = map (ramp 600) [0..<44]"
  by (simp add: synthesis_def rendering_def segment_def items_E timeUnit_1200 countsFor_def
      audioFor_def toSamples_1 morse_E space_def gapFollows_def charAudio_dot
      del: upt_rec_numeral)

text \<open>
  Claim C7. For every text, WPM and frequency, in both files: whenever
  \<open>generateMorseAudio\<close> returns, the total computed by the pre-pass is the length of the
  buffer, the write position at the end of the generation pass is that total, and no
  write was cut short or skipped by a bounds guard. The function returns for every WPM
  up to 184467440737095516, where \<open>wpm * 50\<close> does not wrap around; beyond that it can
  only panic in \<open>make\<close> on a negative length before the generation pass starts.
\<close>

theorem passes_agree:
  "(generateMorseAudio_run tbl tone text wpm freq = Inr (w, tot) \<longrightarrow>
      tot = int (length (samples w)) \<and> currentSample w = tot \<and> dropped w = 0) \<and>
   (generateMorseAudio_inline_run tbl tone text wpm freq = Inr (w', tot') \<longrightarrow>
      tot' = int (length (samples w')) \<and> currentSample w' = tot' \<and> dropped w' = 0) \<and>
   (sint wpm \<le> 184467440737095516 \<longrightarrow>
      (\<exists>w tot. generateMorseAudio_run tbl tone text wpm freq = Inr (w, tot)) \<and>
      (\<exists>w tot. generateMorseAudio_inline_run tbl tone text wpm freq = Inr (w, tot)))"
proof (intro conjI)
  show "generateMorseAudio_run tbl tone text wpm freq = Inr (w, tot) \<longrightarrow>
           tot = int (length (samples w)) \<and> currentSample w = tot \<and> dropped w = 0"
  proof (cases "0 \<le> sint (timeUnit wpm)")
    case True
    then show ?thesis by (auto simp: generateMorseAudio_run_nonneg)
  next
    case False
    then show ?thesis by (simp add: generateMorseAudio_run_neg)
  qed
  show "generateMorseAudio_inline_run tbl tone text wpm freq = Inr (w', tot') \<longrightarrow>
           tot' = int (length (samples w')) \<and> currentSample w' = tot' \<and> dropped w' = 0"
  proof (cases "0 \<le> sint (timeUnit wpm)")
    case True
    then show ?thesis by (auto simp: generateMorseAudio_inline_run_nonneg)
  next
    case False
    then have "sint (timeUnit wpm) < 0" by simp
    then show ?thesis
      using generateMorseAudio_inline_run_neg [of wpm tbl tone "text" freq w' tot'] by auto
  qed
  show "sint wpm \<le> 184467440737095516 \<longrightarrow>
           (\<exists>w tot. generateMorseAudio_run tbl tone text wpm freq = Inr (w, tot)) \<and>
           (\<exists>w tot. generateMorseAudio_inline_run tbl tone text wpm freq = Inr (w, tot))"
    using timeUnit_nonneg [of wpm]
    by (simp add: generateMorseAudio_run_nonneg generateMorseAudio_inline_run_nonneg)
qed

theorem passes_agree_witness:
  "generateMorseAudio_run caseRows ramp ''E'' 1200 600 =
     Inr (\<lparr>samples = map (ramp 600) [0..<44], currentSample = 44, dropped = 0\<rparr>, 44)
   \<and> generateMorseAudio_inline_run caseRows ramp ''E'' 1200 600 =
     Inr (\<lparr>samples = map (ramp 600) [0..<44], currentSample = 44, dropped = 0\<rparr>, 44)
   \<and> sint (1200 :: go_int) \<le> 184467440737095516
   \<and> 44 = int (length (samples \<lparr>samples = map (ramp 600) [0..<44], currentSample = 44,
                                   dropped = 0\<rparr>))
   \<and> currentSample \<lparr>samples = map (ramp 600) [0..<44], currentSample = 44,
                       dropped = 0\<rparr> = 44
   \<and> dropped \<lparr>samples = map (ramp 600) [0..<44], currentSample = 44, dropped = 0\<rparr> = 0"
proof -
  have t: "0 \<le> sint (timeUnit 1200)" by (simp add: timeUnit_1200)
  have 1: "generateMorseAudio_run caseRows ramp ''E'' 1200 600 =
     Inr (\<lparr>samples = map (ramp 600) [0..<44], currentSample = 44, dropped = 0\<rparr>, 44)"
    using generateMorseAudio_run_nonneg [OF t, of caseRows ramp "''E''" 600]
    by (simp add: synthesis_E del: upt_rec_numeral)
  have 2: "generateMorseAudio_inline_run caseRows ramp ''E'' 1200 600 =
     Inr (\<lparr>samples = map (ramp 600) [0..<44], currentSample = 44, dropped = 0\<rparr>, 44)"
    using generateMorseAudio_inline_run_nonneg [OF t, of caseRows ramp "''E''" 600]
    by (simp add: synthesis_E del: upt_rec_numeral)
  have 3: "sint (1200 :: go_int) \<le> 184467440737095516" by simp
  note th = passes_agree [of caseRows ramp "''E''" 1200 600
      "\<lparr>samples = map (ramp 600) [0..<44], currentSample = 44, dropped = 0\<rparr>" 44
      "\<lparr>samples = map (ramp 600) [0..<44], currentSample = 44, dropped = 0\<rparr>" 44]
  from th 1 2 3 show ?thesis by blast
qed

section \<open>The two files agree\<close>

lemma timeUnit_20: "timeUnit 20 = 60"
  by (simp add: timeUnit_def word_sle_eq signed_divide_int_def)

lemma toSamples_60: "toSamples 60 = 2646" "toSamples 180 = 7938" "toSamples 420 = 18522"
  by (simp_all add: toSamples_sdiv signed_divide_int_def)

lemma generateMorseAudio_nonneg:
  assumes "0 \<le> sint (timeUnit wpm)"
  shows "generateMorseAudio tbl tone text wpm freq =
           Inr (synthesis tbl tone text wpm freq, int (length (synthesis tbl tone text wpm freq)))"
    and "generateMorseAudio_inline tbl tone text wpm freq =
           Inr (synthesis tbl tone text wpm freq, int (length (synthesis tbl tone text wpm freq)))"
  using assms
  by (simp_all add: generateMorseAudio_def generateMorseAudio_inline_def
      generateMorseAudio_run_nonneg generateMorseAudio_inline_run_nonneg)

lemma generateMorseAudio_neg:
  assumes "sint (timeUnit wpm) < 0"
  shows "generateMorseAudio tbl tone text wpm freq = Inl MakeSliceLen"
  using assms by (simp add: generateMorseAudio_def generateMorseAudio_run_neg)

lemma timeUnit_wrapped: "sint (timeUnit 368934881474191032) = - 3750"
  by (simp add: timeUnit_def word_sle_eq signed_divide_int_def)

lemma no_items: "go_range (strings_ToUpper tbl []) = []"
  by (simp add: strings_ToUpper_def isASCII_def go_range_def)

lemma inline_empty: "generateMorseAudio_inline tbl tone [] wpm freq = Inr ([], 0)"
  by (simp add: generateMorseAudio_inline_def generateMorseAudio_inline_run_def timing_total
      no_items makeSlice_def Let_def)

text \<open>
  Claim C10, as stated, fails. With WPM = 368934881474191032 the product \<open>wpm * 50\<close>
  wraps around to -16, the time unit is -3750 ms and every sample count is negative.
  \<open>newMorseAudio\<close> then panics in its first \<open>make\<close>, whatever the text; the second
  file only allocates the output buffer, whose length for the empty text is 0, and
  returns the empty sequence.
\<close>

theorem variants_differ:
  "generateMorseAudio caseRows ramp [] 368934881474191032 600 = Inl MakeSliceLen \<and>
   generateMorseAudio_inline caseRows ramp [] 368934881474191032 600 = Inr ([], 0) \<and>
   generateMorseAudio caseRows ramp [] 368934881474191032 600 \<noteq>
     generateMorseAudio_inline caseRows ramp [] 368934881474191032 600"
proof -
  have "sint (timeUnit 368934881474191032) < 0" by (simp add: timeUnit_wrapped)
  then have "generateMorseAudio caseRows ramp [] 368934881474191032 600 = Inl MakeSliceLen"
    by (rule generateMorseAudio_neg)
  then show ?thesis by (simp add: inline_empty)
qed

text \<open>
  Claim C10, amended. Whenever \<open>generateMorseAudio\<close> of main.go returns, the function of
  the second file returns the same sample sequence and the same count; and for every text,
  every frequency and every WPM up to 184467440737095516 (where \<open>wpm * 50\<close> does not wrap
  around) both return, with the same result.
\<close>

theorem variants_agree:
  "(generateMorseAudio tbl tone text wpm freq = Inr r \<longrightarrow>
      generateMorseAudio_inline tbl tone text wpm freq = Inr r) \<and>
   (sint wpm \<le> 184467440737095516 \<longrightarrow>
      (\<exists>out. generateMorseAudio tbl tone text wpm freq = Inr (out, int (length out)) \<and>
             generateMorseAudio_inline tbl tone text wpm freq = Inr (out, int (length out))))"
proof (intro conjI impI)
  assume r: "generateMorseAudio tbl tone text wpm freq = Inr r"
  show "generateMorseAudio_inline tbl tone text wpm freq = Inr r"
  proof (cases "0 \<le> sint (timeUnit wpm)")
    case True
    with r show ?thesis by (simp add: generateMorseAudio_nonneg)
  next
    case False
    with r show ?thesis by (simp add: generateMorseAudio_neg)
  qed
next
  assume "sint wpm \<le> 184467440737095516"
  then have "0 \<le> sint (timeUnit wpm)" by (rule timeUnit_nonneg)
  then show "\<exists>out. generateMorseAudio tbl tone text wpm freq = Inr (out, int (length out)) \<and>
             generateMorseAudio_inline tbl tone text wpm freq = Inr (out, int (length out))"
    by (simp add: generateMorseAudio_nonneg)
qed

theorem variants_agree_witness:
  "generateMorseAudio caseRows ramp ''E'' 1200 600 = Inr (map (ramp 600) [0..<44], 44) \<and>
   sint (1200 :: go_int) \<le> 184467440737095516 \<and>
   generateMorseAudio_inline caseRows ramp ''E'' 1200 600 = Inr (map (ramp 600) [0..<44], 44)"
proof -
  have t: "0 \<le> sint (timeUnit 1200)" by (simp add: timeUnit_1200)
  have 1: "generateMorseAudio caseRows ramp ''E'' 1200 600 = Inr (map (ramp 600) [0..<44], 44)"
    using generateMorseAudio_nonneg(1) [OF t, of caseRows ramp "''E''" 600]
    by (simp add: synthesis_E del: upt_rec_numeral)
  have 3: "sint (1200 :: go_int) \<le> 184467440737095516" by simp
  note th = variants_agree [of caseRows ramp "''E''" 1200 600 "(map (ramp 600) [0..<44], 44)"]
  from th 1 3 show ?thesis by blast
qed

section \<open>Texts of ASCII bytes\<close>

lemma of_char_upperByte:
  "(of_char (upperByte c) :: nat) =
     (if 0x61 \<le> (of_char c :: nat) \<and> (of_char c :: nat) \<le> 0x7A then of_char c - 0x20
      else of_char c)"
proof (cases "0x61 \<le> (of_char c :: nat) \<and> (of_char c :: nat) \<le> 0x7A")
  case True
  then have "(of_char c - 0x20 :: nat) < 256" by arith
  then have "(of_char c - 0x20 :: nat) mod 256 = of_char c - 0x20" by (rule mod_less)
  with True show ?thesis by (simp add: upperByte_def)
next
  case False
  then show ?thesis by (auto simp: upperByte_def)
qed

lemma upperByte_idem: "upperByte (upperByte c) = upperByte c"
proof -
  define n :: nat where "n = of_char c"
  have "(if 0x61 \<le> (if 0x61 \<le> n \<and> n \<le> 0x7A then n - 0x20 else n)
            \<and> (if 0x61 \<le> n \<and> n \<le> 0x7A then n - 0x20 else n) \<le> 0x7A
         then (if 0x61 \<le> n \<and> n \<le> 0x7A then n - 0x20 else n) - 0x20
         else (if 0x61 \<le> n \<and> n \<le> 0x7A then n - 0x20 else n)) =
        (if 0x61 \<le> n \<and> n \<le> 0x7A then n - 0x20 else n)"
    by arith
  then have "(of_char (upperByte (upperByte c)) :: nat) = of_char (upperByte c)"
    by (simp only: of_char_upperByte n_def)
  then show ?thesis by (simp only: of_char_eq_iff)
qed

lemma upperByte_space: "upperByte c = CHR '' '' \<longleftrightarrow> c = CHR '' ''"
proof -
  define n :: nat where "n = of_char c"
  have "(if 0x61 \<le> n \<and> n \<le> 0x7A then n - 0x20 else n) = 0x20 \<longleftrightarrow> n = 0x20"
    by arith
  then have "(of_char (upperByte c) :: nat) = 0x20 \<longleftrightarrow> (of_char c :: nat) = 0x20"
    by (simp only: of_char_upperByte n_def)
  moreover have "(of_char (CHR '' '') :: nat) = 0x20" by simp
  ultimately have "(of_char (upperByte c) :: nat) = of_char (CHR '' '')
      \<longleftrightarrow> (of_char c :: nat) = of_char (CHR '' '')" by simp
  then show ?thesis by (simp only: of_char_eq_iff)
qed

lemma upperByte_ascii: "(of_char c :: nat) < 0x80 \<Longrightarrow> (of_char (upperByte c) :: nat) < 0x80"
proof -
  define n :: nat where "n = of_char c"
  assume "(of_char c :: nat) < 0x80"
  then have "n < 0x80" by (simp add: n_def)
  then have "(if 0x61 \<le> n \<and> n \<le> 0x7A then n - 0x20 else n) < 0x80" by arith
  then show ?thesis by (simp only: of_char_upperByte n_def)
qed

lemma isASCII_upper: "isASCII text \<Longrightarrow> isASCII (map upperByte text)"
  by (simp add: isASCII_def list_all_iff upperByte_ascii)

lemma ToUpper_ascii: "isASCII text \<Longrightarrow> strings_ToUpper tbl text = map upperByte text"
  by (simp add: strings_ToUpper_def)

lemma ToUpper_idem:
  "isASCII text \<Longrightarrow> strings_ToUpper tbl (strings_ToUpper tbl text) = strings_ToUpper tbl text"
  by (simp add: ToUpper_ascii isASCII_upper upperByte_idem)

lemma gapFollows_upper:
  assumes "isASCII text"
  shows "gapFollows (strings_ToUpper tbl text) i = gapFollows text i"
proof (cases "int i < int (length text) - 1")
  case True
  then have "i + 1 < length text" by simp
  then have "map upperByte text ! (i + 1) = upperByte (text ! (i + 1))" by (rule nth_map)
  with True assms show ?thesis
    by (simp add: gapFollows_def ToUpper_ascii upperByte_space)
next
  case False
  with assms show ?thesis by (simp add: gapFollows_def ToUpper_ascii)
qed

text \<open>
  On a text of ASCII bytes the loop index is the position of the character in the text,
  and the characters it visits are the upper-case forms of the bytes.
\<close>

lemma ascii_items:
  assumes "isASCII text"
  shows "go_range (strings_ToUpper tbl text) =
         zip [0..<length text] (map (\<lambda>c. of_char (upperByte c)) text)"
  using go_range_ascii [OF isASCII_upper [OF assms]] assms
  by (simp add: ToUpper_ascii comp_def)

text \<open>
  Case-insensitivity holds for every text of ASCII bytes, in both files: the text and
  its upper-case form give the same result, whether a buffer or a panic.
\<close>

lemma case_insensitive_ascii:
  assumes "isASCII text"
  shows "generateMorseAudio tbl tone (strings_ToUpper tbl text) wpm freq =
           generateMorseAudio tbl tone text wpm freq"
    and "generateMorseAudio_inline tbl tone (strings_ToUpper tbl text) wpm freq =
           generateMorseAudio_inline tbl tone text wpm freq"
proof -
  note g = gapFollows_upper [OF assms]
  have c: "countChar morse (strings_ToUpper tbl text) = countChar morse text" for morse
    by (intro ext) (simp add: countChar_def g Let_def split: prod.splits option.splits)
  have w: "writeChar morse (strings_ToUpper tbl text) = writeChar morse text" for morse
    by (intro ext) (simp add: writeChar_def g split: prod.splits option.splits)
  have ci: "countChar_inline n (strings_ToUpper tbl text) = countChar_inline n text" for n
    by (intro ext) (simp add: countChar_inline_def g Let_def split: prod.splits option.splits)
  have wi: "writeChar_inline tone freq n (strings_ToUpper tbl text) =
            writeChar_inline tone freq n text" for n
    by (intro ext) (simp add: writeChar_inline_def g split: prod.splits option.splits)
  show "generateMorseAudio tbl tone (strings_ToUpper tbl text) wpm freq =
           generateMorseAudio tbl tone text wpm freq"
    by (simp add: generateMorseAudio_def generateMorseAudio_run_def c w ToUpper_idem [OF assms])
  show "generateMorseAudio_inline tbl tone (strings_ToUpper tbl text) wpm freq =
           generateMorseAudio_inline tbl tone text wpm freq"
    by (simp add: generateMorseAudio_inline_def generateMorseAudio_inline_run_def ci wi
        ToUpper_idem [OF assms])
qed

lemma sos_SOS:
  "generateMorseAudio tbl tone ''sos'' wpm freq = generateMorseAudio tbl tone ''SOS'' wpm freq"
proof -
  have a: "isASCII ''sos''" by (simp add: isASCII_def)
  have "strings_ToUpper tbl ''sos'' = ''SOS''"
    by (simp add: strings_ToUpper_def isASCII_def upperByte_def char_of_eq_iff)
  with case_insensitive_ascii(1) [OF a, of tbl tone wpm freq] show ?thesis by simp
qed

section \<open>Texts beyond ASCII\<close>

lemma morse_S: "morseCodeMap 83 = Some ''...''"
  by (simp add: morseCodeMap_def morseTable_def)

lemma charAudio_dots: "charAudio dot dash gap ''...'' = dot @ gap @ dot @ gap @ dot"
  by (simp add: charAudio_def go_range_def decodeRune_def appendElement_def dit_def dah_def)

lemma upper_long_s_e: "strings_ToUpper caseRows [CHR 0xC5, CHR 0xBF, CHR ''e''] = ''SE''"
  by (simp add: go_range_def strings_ToUpper_def isASCII_def strings_Map_def RuneError_def
      RuneLen_def unicode_ToUpper_def caseRows_def encodeRune_def Map_rest_def isCont_def
      decodeRune_def char_of_eq_iff)

lemma upper_SE: "strings_ToUpper caseRows ''SE'' = ''SE''"
  by (simp add: strings_ToUpper_def isASCII_def upperByte_def)

lemma items_SE: "go_range ''SE'' = [(0, 83), (1, 69)]"
  by (simp add: go_range_def decodeRune_def)

lemma synthesis_long_s_e:
  "synthesis caseRows tone [CHR 0xC5, CHR 0xBF, CHR ''e''] 20 freq =
     (map (tone freq) [0..<2646] @ replicate 2646 0 @ map (tone freq) [0..<2646]
        @ replicate 2646 0 @ map (tone freq) [0..<2646]) @ replicate 7938 0
     @ map (tone freq) [0..<2646] @ replicate 7938 0"
  by (simp add: synthesis_def rendering_def segment_def upper_long_s_e items_SE timeUnit_20
      countsFor_def audioFor_def toSamples_60 morse_E morse_S space_def gapFollows_def
      charAudio_dot charAudio_dots del: upt_rec_numeral)

lemma synthesis_SE:
  "synthesis caseRows tone ''SE'' 20 freq =
     (map (tone freq) [0..<2646] @ replicate 2646 0 @ map (tone freq) [0..<2646]
        @ replicate 2646 0 @ map (tone freq) [0..<2646]) @ replicate 7938 0
     @ map (tone freq) [0..<2646]"
  by (simp add: synthesis_def rendering_def segment_def upper_SE items_SE timeUnit_20
      countsFor_def audioFor_def toSamples_60 morse_E morse_S space_def gapFollows_def
      charAudio_dot charAudio_dots del: upt_rec_numeral)

text \<open>
  Claim C4 (case-insensitivity for every text) does not hold for the code. The loop index
  \<open>i\<close> runs over the bytes of the upper-case string, but \<open>len(text)\<close> and \<open>text[i+1]\<close>
  read the original text. The text made of U+017F, the long s, and "e" has the three
  bytes C5 BF 65 and the upper-case form "SE": at \<open>i = 1\<close>, the last character,
  the test \<open>1 < len(text)-1\<close> succeeds and a character gap is appended after the E,
  31752 samples in all at 20 WPM, while "SE" itself gives 23814 samples. For texts of ASCII
  bytes the property holds (\<open>case_insensitive_ascii\<close>, \<open>sos_SOS\<close>).
\<close>

theorem case_folding_fails:
  "strings_ToUpper caseRows [CHR 0xC5, CHR 0xBF, CHR ''e''] = ''SE'' \<and>
   generateMorseAudio caseRows tone [CHR 0xC5, CHR 0xBF, CHR ''e''] 20 freq =
     Inr ((map (tone freq) [0..<2646] @ replicate 2646 0 @ map (tone freq) [0..<2646]
            @ replicate 2646 0 @ map (tone freq) [0..<2646]) @ replicate 7938 0
          @ map (tone freq) [0..<2646] @ replicate 7938 0, 31752) \<and>
   generateMorseAudio caseRows tone ''SE'' 20 freq =
     Inr ((map (tone freq) [0..<2646] @ replicate 2646 0 @ map (tone freq) [0..<2646]
            @ replicate 2646 0 @ map (tone freq) [0..<2646]) @ replicate 7938 0
          @ map (tone freq) [0..<2646], 23814) \<and>
   generateMorseAudio_inline caseRows tone [CHR 0xC5, CHR 0xBF, CHR ''e''] 20 freq =
     generateMorseAudio caseRows tone [CHR 0xC5, CHR 0xBF, CHR ''e''] 20 freq \<and>
   generateMorseAudio_inline caseRows tone ''SE'' 20 freq =
     generateMorseAudio caseRows tone ''SE'' 20 freq"
proof -
  have t: "0 \<le> sint (timeUnit 20)" by (simp add: timeUnit_20)
  show ?thesis
    using generateMorseAudio_nonneg
      [OF t, of caseRows tone "[CHR 0xC5, CHR 0xBF, CHR ''e'']" freq]
      generateMorseAudio_nonneg [OF t, of caseRows tone "''SE''" freq]
    by (simp add: upper_long_s_e synthesis_long_s_e synthesis_SE del: upt_rec_numeral)
qed

lemma upper_turned_a:
  "strings_ToUpper caseRows [CHR 0xC9, CHR 0x90, CHR ''E'', CHR ''E''] =
     [CHR 0xE2, CHR 0xB1, CHR 0xAF, CHR ''E'', CHR ''E'']"
  by (simp add: go_range_def strings_ToUpper_def isASCII_def strings_Map_def RuneError_def
      RuneLen_def unicode_ToUpper_def caseRows_def encodeRune_def Map_rest_def isCont_def
      decodeRune_def char_of_eq_iff)

lemma items_turned_a:
  "go_range [CHR 0xE2, CHR 0xB1, CHR 0xAF, CHR ''E'', CHR ''E''] = [(0, 0x2C6F), (3, 69), (4, 69)]"
  by (simp add: go_range_def RuneError_def isCont_def decodeRune_def)

lemma morse_turned_a: "morseCodeMap 0x2C6F = None"
  by (simp add: morseCodeMap_def morseTable_def)

lemma synthesis_turned_a:
  "synthesis caseRows tone [CHR 0xC9, CHR 0x90, CHR ''E'', CHR ''E''] 20 freq =
     map (tone freq) [0..<2646] @ map (tone freq) [0..<2646]"
  by (simp add: synthesis_def rendering_def segment_def upper_turned_a items_turned_a
      timeUnit_20 countsFor_def audioFor_def toSamples_60 morse_E morse_turned_a space_def
      gapFollows_def charAudio_dot del: upt_rec_numeral)

text \<open>
  Claim C5 (a character gap after every supported character that is not the last one and
  is not followed by a space) does not hold for the code, by the same mix of indices as
  for C4. The text of U+0250, the turned a, followed by "EE" has the bytes C9 90 45 45;
  its upper-case form E2 B1 AF 45 45 is one byte longer, so the first E is at \<open>i = 3\<close>
  and the test \<open>3 < len(text)-1\<close> fails: the output is two dots with no gap between
  them, 5292 samples at 20 WPM, although the first E is followed by another E.
\<close>

theorem gap_rule_fails:
  "generateMorseAudio caseRows tone [CHR 0xC9, CHR 0x90, CHR ''E'', CHR ''E''] 20 freq =
     Inr (map (tone freq) [0..<2646] @ map (tone freq) [0..<2646], 5292) \<and>
   generateMorseAudio_inline caseRows tone [CHR 0xC9, CHR 0x90, CHR ''E'', CHR ''E''] 20 freq =
     Inr (map (tone freq) [0..<2646] @ map (tone freq) [0..<2646], 5292)"
proof -
  have t: "0 \<le> sint (timeUnit 20)" by (simp add: timeUnit_20)
  show ?thesis
    using generateMorseAudio_nonneg
      [OF t, of caseRows tone "[CHR 0xC9, CHR 0x90, CHR ''E'', CHR ''E'']" freq]
    by (simp add: synthesis_turned_a del: upt_rec_numeral)
qed

section \<open>Spaces\<close>

lemma newMorseAudio_Inr:
  assumes "newMorseAudio tone wpm freq = Inr morse"
  shows "0 \<le> sint (timeUnit wpm)" and "morse = audioFor tone freq (countsFor (timeUnit wpm))"
proof -
  show t: "0 \<le> sint (timeUnit wpm)"
  proof (rule ccontr)
    assume "\<not> 0 \<le> sint (timeUnit wpm)"
    then have "newMorseAudio tone wpm freq = Inl MakeSliceLen"
      by (intro newMorseAudio_neg) simp
    with assms show False by simp
  qed
  from assms newMorseAudio_nonneg [OF t, of tone freq]
  show "morse = audioFor tone freq (countsFor (timeUnit wpm))" by simp
qed

lemma rendering_split:
  assumes "k < length items"
  shows "rendering morse text items =
         rendering morse text (take k items) @ segment morse text (items ! k)
           @ rendering morse text (drop (Suc k) items)"
proof -
  have "items = take k items @ items ! k # drop (Suc k) items"
    using assms by (rule id_take_nth_drop)
  then have "rendering morse text items =
             rendering morse text (take k items @ items ! k # drop (Suc k) items)"
    by simp
  then show ?thesis by (simp add: rendering_def)
qed

lemma segment_space: "snd item = space \<Longrightarrow> segment morse text item = wordGap morse"
  by (cases item) (simp add: segment_def)

lemma items_space: "go_range (strings_ToUpper tbl '' '') = [(0, space)]"
  by (simp add: strings_ToUpper_def isASCII_def upperByte_def go_range_def decodeRune_def
      space_def)

text \<open>
  Claim C6. Let \<open>morse\<close> be the pre-generated audio and \<open>items\<close> the characters that the
  loops visit. In both files the output is the concatenation of the segments of the items
  in order, and for every item that is a space the segment is the word gap alone: the
  output is the rendering of the items before it, then the word gap, then the rendering
  of the items after it, with no character gap attached. The word gap is all zeros. In a
  text of ASCII bytes every space of the text is such an item, at its own position. For
  the text of a single space the output is the word gap and nothing else.
\<close>

theorem space_is_word_gap:
  assumes "newMorseAudio tone wpm freq = Inr morse"
    and "items = go_range (strings_ToUpper tbl text)"
  shows "generateMorseAudio tbl tone text wpm freq =
           Inr (rendering morse text items, int (length (rendering morse text items))) \<and>
         generateMorseAudio_inline tbl tone text wpm freq =
           Inr (rendering morse text items, int (length (rendering morse text items))) \<and>
         (\<forall>k<length items. snd (items ! k) = space \<longrightarrow>
            rendering morse text items =
              rendering morse text (take k items) @ wordGap morse
                @ rendering morse text (drop (Suc k) items)) \<and>
         wordGap morse = replicate (length (wordGap morse)) 0 \<and>
         (isASCII text \<longrightarrow>
            (\<forall>k<length text. text ! k = CHR '' '' \<longrightarrow> k < length items \<and> snd (items ! k) = space)) \<and>
         generateMorseAudio tbl tone '' '' wpm freq =
           Inr (wordGap morse, int (length (wordGap morse))) \<and>
         generateMorseAudio_inline tbl tone '' '' wpm freq =
           Inr (wordGap morse, int (length (wordGap morse)))"
proof -
  note t = newMorseAudio_Inr(1) [OF assms(1)]
  note m = newMorseAudio_Inr(2) [OF assms(1)]
  have syn: "synthesis tbl tone text wpm freq = rendering morse text items"
    by (simp add: synthesis_def m assms(2))
  have one: "synthesis tbl tone '' '' wpm freq = wordGap morse"
    by (simp add: synthesis_def m [symmetric] items_space rendering_def segment_def)
  have 1: "generateMorseAudio tbl tone text wpm freq =
           Inr (rendering morse text items, int (length (rendering morse text items)))"
    using generateMorseAudio_nonneg(1) [OF t, of tbl tone "text" freq] by (simp add: syn)
  have 2: "generateMorseAudio_inline tbl tone text wpm freq =
           Inr (rendering morse text items, int (length (rendering morse text items)))"
    using generateMorseAudio_nonneg(2) [OF t, of tbl tone "text" freq] by (simp add: syn)
  have 3: "\<forall>k<length items. snd (items ! k) = space \<longrightarrow>
            rendering morse text items =
              rendering morse text (take k items) @ wordGap morse
                @ rendering morse text (drop (Suc k) items)"
    using rendering_split [of _ items morse "text"] by (simp add: segment_space)
  have 4: "wordGap morse = replicate (length (wordGap morse)) 0"
    by (simp add: m audioFor_def)
  have 5: "k < length items \<and> snd (items ! k) = space"
    if a: "isASCII text" and k: "k < length text" and s: "text ! k = CHR '' ''" for k
  proof -
    have i: "items = zip [0..<length text] (map (\<lambda>c. of_char (upperByte c)) text)"
      unfolding assms(2) using a by (rule ascii_items)
    have "upperByte (text ! k) = CHR '' ''" using s by (simp add: upperByte_space)
    with k show ?thesis by (simp add: i space_def)
  qed
  have 6: "generateMorseAudio tbl tone '' '' wpm freq =
           Inr (wordGap morse, int (length (wordGap morse)))"
    using generateMorseAudio_nonneg(1) [OF t, of tbl tone "'' ''" freq] by (simp add: one)
  have 7: "generateMorseAudio_inline tbl tone '' '' wpm freq =
           Inr (wordGap morse, int (length (wordGap morse)))"
    using generateMorseAudio_nonneg(2) [OF t, of tbl tone "'' ''" freq] by (simp add: one)
  from 1 2 3 4 5 6 7 show ?thesis by blast
qed

lemma items_E_E: "go_range (strings_ToUpper caseRows ''E E'') = [(0, 69), (1, 32), (2, 69)]"
  by (simp add: strings_ToUpper_def isASCII_def upperByte_def go_range_def decodeRune_def)

lemma rendering_E_E:
  "rendering (audioFor ramp 600 (countsFor (timeUnit 1200))) ''E E'' [(0, 69), (1, 32), (2, 69)] =
     map (ramp 600) [0..<44] @ replicate 308 0 @ map (ramp 600) [0..<44]"
  by (simp add: rendering_def segment_def timeUnit_1200 countsFor_def audioFor_def toSamples_1
      morse_E space_def gapFollows_def charAudio_dot del: upt_rec_numeral)

lemma wordGap_1200: "wordGap (audioFor ramp 600 (countsFor (timeUnit 1200))) = replicate 308 0"
  by (simp add: timeUnit_1200 countsFor_def audioFor_def toSamples_1)

theorem space_is_word_gap_witness:
  "newMorseAudio ramp 1200 600 = Inr (audioFor ramp 600 (countsFor (timeUnit 1200))) \<and>
   [(0, 69), (1, 32), (2, 69)] = go_range (strings_ToUpper caseRows ''E E'') \<and>
   isASCII ''E E'' \<and> ''E E'' ! 1 = CHR '' '' \<and>
   snd ([(0, 69), (1, 32), (2, 69)] ! 1) = space \<and>
   generateMorseAudio caseRows ramp ''E E'' 1200 600 =
     Inr (map (ramp 600) [0..<44] @ replicate 308 0 @ map (ramp 600) [0..<44], 396) \<and>
   generateMorseAudio_inline caseRows ramp ''E E'' 1200 600 =
     Inr (map (ramp 600) [0..<44] @ replicate 308 0 @ map (ramp 600) [0..<44], 396) \<and>
   generateMorseAudio caseRows ramp '' '' 1200 600 = Inr (replicate 308 0, 308) \<and>
   generateMorseAudio_inline caseRows ramp '' '' 1200 600 = Inr (replicate 308 0, 308)"
proof -
  have t: "0 \<le> sint (timeUnit 1200)" by (simp add: timeUnit_1200)
  have h1: "newMorseAudio ramp 1200 600 = Inr (audioFor ramp 600 (countsFor (timeUnit 1200)))"
    using t by (rule newMorseAudio_nonneg)
  have h2: "[(0, 69), (1, 32), (2, 69)] = go_range (strings_ToUpper caseRows ''E E'')"
    by (simp add: items_E_E)
  have h3: "isASCII ''E E''" by (simp add: isASCII_def)
  have h4: "''E E'' ! 1 = CHR '' ''" by simp
  have h5: "snd ([(0, 69), (1, 32), (2, 69)] ! 1) = space" by (simp add: space_def)
  note th = space_is_word_gap [OF h1 h2]
  have g1: "generateMorseAudio caseRows ramp ''E E'' 1200 600 =
       Inr (map (ramp 600) [0..<44] @ replicate 308 0 @ map (ramp 600) [0..<44], 396)"
    using th [THEN conjunct1] unfolding rendering_E_E by (simp del: upt_rec_numeral)
  have g2: "generateMorseAudio_inline caseRows ramp ''E E'' 1200 600 =
       Inr (map (ramp 600) [0..<44] @ replicate 308 0 @ map (ramp 600) [0..<44], 396)"
    using th [THEN conjunct2, THEN conjunct1] unfolding rendering_E_E
    by (simp del: upt_rec_numeral)
  have g3: "generateMorseAudio caseRows ramp '' '' 1200 600 = Inr (replicate 308 0, 308)"
    using th [THEN conjunct2, THEN conjunct2, THEN conjunct2, THEN conjunct2, THEN conjunct2,
        THEN conjunct1]
    unfolding wordGap_1200 by simp
  have g4: "generateMorseAudio_inline caseRows ramp '' '' 1200 600 = Inr (replicate 308 0, 308)"
    using th [THEN conjunct2, THEN conjunct2, THEN conjunct2, THEN conjunct2, THEN conjunct2,
        THEN conjunct2]
    unfolding wordGap_1200 by simp
  note g = g1 g2 g3 g4
  from h1 h2 h3 h4 h5 g show ?thesis by blast
qed

section \<open>Sample counts\<close>










section \<open>The oscillator\<close>





















section \<open>The container\<close>

lemma bytes_of_nat16:
  fixes x :: nat
  assumes "x < 65536"
  shows "x mod 256 + 256 * (x div 256 mod 256) = x"
proof -
  have "x div 256 < 256" using assms by (simp add: less_mult_imp_div_less)
  then have "x div 256 mod 256 = x div 256" by simp
  then show ?thesis by simp
qed

lemma bytes_of_nat32:
  fixes x :: nat
  assumes "x < 4294967296"
  shows "x mod 256 + 256 * (x div 256 mod 256 + 256 * (x div 65536 mod 256
           + 256 * (x div 16777216 mod 256))) = x"
proof -
  define y where "y = x div 65536"
  have y: "y < 65536" using assms by (simp add: y_def less_mult_imp_div_less)
  have 1: "x div 16777216 = y div 256" by (simp add: y_def div_mult2_eq)
  have hi: "y mod 256 + 256 * (y div 256 mod 256) = y" using y by (rule bytes_of_nat16)
  define z where "z = x mod 65536"
  have z: "z < 65536" by (simp add: z_def)
  have 2: "x mod 256 = z mod 256" by (simp add: z_def mod_mod_cancel)
  have "x div 256 mod 256 = (x mod (256 * 256)) div 256"
    by (simp only: mod_mult2_eq)
  then have 3: "x div 256 mod 256 = z div 256" by (simp add: z_def)
  have "z div 256 < 256" using z by (simp add: less_mult_imp_div_less)
  then have lo: "z mod 256 + 256 * (z div 256 mod 256) = z" using z by (intro bytes_of_nat16)
  have 4: "z div 256 mod 256 = z div 256" using \<open>z div 256 < 256\<close> by simp
  have x: "x = z + 65536 * y" by (simp add: y_def z_def)
  have "x mod 256 + 256 * (x div 256 mod 256 + 256 * (x div 65536 mod 256
           + 256 * (x div 16777216 mod 256))) =
        (z mod 256 + 256 * (z div 256)) + 65536 * (y mod 256 + 256 * (y div 256 mod 256))"
    by (simp add: 1 2 3 y_def [symmetric])
  also have "\<dots> = z + 65536 * y" using lo hi by (simp add: 4)
  finally show ?thesis unfolding x [symmetric] .
qed

lemma uint_le_le32: "uint_le (le32 x) = unat x"
proof -
  have "unat x < 4294967296" using unsigned_less [of x] by simp
  then show ?thesis
    using bytes_of_nat32 [of "unat x"]
    by (simp add: uint_le_def le32_def unsigned_ucast_eq unat_drop_bit_eq)
      (simp add: take_bit_eq_mod drop_bit_eq_div)
qed

lemma uint_le_le16: "uint_le (le16 x) = unat x"
proof -
  have "unat x < 65536" using unsigned_less [of x] by simp
  then show ?thesis
    using bytes_of_nat16 [of "unat x"]
    by (simp add: uint_le_def le16_def unsigned_ucast_eq unat_drop_bit_eq)
      (simp add: take_bit_eq_mod drop_bit_eq_div)
qed

lemma fold_write: "fold (\<lambda>x buf. buf @ f x) xs acc = acc @ concat (map f xs)"
  by (induction xs arbitrary: acc) simp_all

lemma length_le16s: "length (concat (map le16 xs)) = 2 * length xs"
  by (induction xs) (simp_all add: le16_def)

lemma generateMorseAudio_Inr:
  assumes "generateMorseAudio tbl tone text wpm freq = Inr (out, tot)"
  shows "out = synthesis tbl tone text wpm freq" and "tot = int (length out)"
proof -
  have t: "0 \<le> sint (timeUnit wpm)"
  proof (rule ccontr)
    assume "\<not> 0 \<le> sint (timeUnit wpm)"
    then have "generateMorseAudio tbl tone text wpm freq = Inl MakeSliceLen"
      by (intro generateMorseAudio_neg) simp
    with assms show False by simp
  qed
  from assms generateMorseAudio_nonneg(1) [OF t, of tbl tone "text" freq]
  show "out = synthesis tbl tone text wpm freq" and "tot = int (length out)" by auto
qed

lemma synthesis_empty: "synthesis tbl tone [] wpm freq = []"
  by (simp add: synthesis_def no_items rendering_def)

lemma wavBuffer_header:
  "wavBuffer (out, tot) =
     writeWavHeader [] (word_of_int tot * 2) 44100 @ concat (map le16 out)"
  by (simp add: wavBuffer_def fold_write)

lemma header_fields:
  "writeWavHeader [] dataSize 44100 =
     bytesOf ''RIFF'' @ le32 (ucast (36 + dataSize)) @ bytesOf ''WAVE'' @ bytesOf ''fmt ''
       @ le32 16 @ le16 1 @ le16 1 @ le32 44100 @ le32 (44100 * 2) @ le16 2 @ le16 16
       @ bytesOf ''data'' @ le32 (ucast dataSize)"
  by (simp add: writeWavHeader_def)

lemma empty_container:
  "wavBuffer ([], 0) =
     [0x52, 0x49, 0x46, 0x46, 36, 0, 0, 0, 0x57, 0x41, 0x56, 0x45,
      0x66, 0x6D, 0x74, 0x20, 16, 0, 0, 0, 1, 0, 1, 0, 0x44, 0xAC, 0, 0, 0x88, 0x58, 1, 0,
      2, 0, 16, 0, 0x64, 0x61, 0x74, 0x61, 0, 0, 0, 0]"
  by (simp add: wavBuffer_def writeWavHeader_def bytesOf_def le32_def le16_def drop_bit_eq_div)

lemma ucast_size:
  "unat (ucast (word_of_nat k :: go_int) :: 32 word) = k mod 2 ^ 32"
proof -
  have "unat (ucast (word_of_nat k :: go_int) :: 32 word) = (k mod 2 ^ 64) mod 2 ^ 32"
    by (simp add: unsigned_ucast_eq unat_of_nat take_bit_eq_mod)
  also have "\<dots> = k mod 2 ^ 32"
    by (rule mod_mod_cancel) (simp add: le_imp_power_dvd)
  finally show ?thesis .
qed

lemma generateMorseAudio_inline_Inr:
  assumes "generateMorseAudio_inline tbl tone text wpm freq = Inr (out, tot)"
  shows "tot = int (length out)"
proof (cases "0 \<le> sint (timeUnit wpm)")
  case True
  from assms generateMorseAudio_nonneg(2) [OF True, of tbl tone "text" freq]
  show ?thesis by auto
next
  case False
  then have neg: "sint (timeUnit wpm) < 0" by simp
  from assms obtain w where
    r: "generateMorseAudio_inline_run tbl tone text wpm freq = Inr (w, tot)"
    and o: "out = samples w"
    by (auto simp: generateMorseAudio_inline_def andThen_eq_Inr)
  from generateMorseAudio_inline_run_neg [OF neg r] o show ?thesis by simp
qed

lemma riffSizeField_wavBuffer:
  "riffSizeField (wavBuffer (out, tot)) =
     unat (ucast (36 + word_of_int tot * 2 :: go_int) :: 32 word)"
  by (simp add: riffSizeField_def wavBuffer_header header_fields bytesOf_def uint_le_le32 [symmetric])
    (simp add: le32_def)

lemma dataSizeField_wavBuffer:
  "dataSizeField (wavBuffer (out, tot)) = unat (ucast (word_of_int tot * 2 :: go_int) :: 32 word)"
  by (simp add: dataSizeField_def wavBuffer_header header_fields bytesOf_def
      uint_le_le32 [symmetric])
    (simp add: le32_def le16_def)

subsection \<open>A long output\<close>

lemma timeUnit_1: "timeUnit 1 = 1200"
  by (simp add: timeUnit_def word_sle_eq signed_divide_int_def)

lemma toSamples_1200: "toSamples 1200 = 52920" "toSamples 3600 = 158760" "toSamples 8400 = 370440"
  by (simp_all add: toSamples_sdiv signed_divide_int_def)

lemma morse_0: "morseCodeMap 48 = Some ''-----''"
  by (simp add: morseCodeMap_def morseTable_def)

lemma charAudio_dashes:
  "charAudio dot dash gap ''-----'' =
     dash @ gap @ dash @ gap @ dash @ gap @ dash @ gap @ dash"
  by (simp add: charAudio_def go_range_def decodeRune_def appendElement_def dit_def dah_def)

lemma rendering_append:
  "rendering m text (xs @ ys) = rendering m text xs @ rendering m text ys"
  by (simp add: rendering_def)

lemma zeros_ascii: "isASCII (replicate n (CHR ''0''))"
  by (simp add: isASCII_def list_all_iff)

lemma zeros_items:
  "go_range (strings_ToUpper tbl (replicate n (CHR ''0''))) = map (\<lambda>i. (i, 48)) [0..<n]"
proof -
  have u: "(of_char (upperByte (CHR ''0'')) :: nat) = 48" by (simp add: of_char_upperByte)
  have "go_range (strings_ToUpper tbl (replicate n (CHR ''0''))) =
        zip [0..<n] (replicate n (48 :: nat))"
    using ascii_items [OF zeros_ascii, of tbl n] by (simp add: u)
  also have "\<dots> = map (\<lambda>i. (i, 48)) [0..<n]"
    by (rule nth_equalityI) simp_all
  finally show ?thesis .
qed

lemma zeros_gap: "gapFollows (replicate n (CHR ''0'')) i \<longleftrightarrow> Suc i < n"
  by (auto simp: gapFollows_def)

lemma zeros_segment:
  "length (segment (audioFor tone freq (countsFor 1200)) (replicate n (CHR ''0'')) (i, 48)) =
     1005480 + (if Suc i < n then 158760 else 0)"
  by (simp add: segment_def space_def audioFor_def countsFor_def toSamples_1200 morse_0
      charAudio_dashes zeros_gap)

lemma zeros_rendering:
  assumes "k \<le> n"
  shows "length (rendering (audioFor tone freq (countsFor 1200)) (replicate n (CHR ''0''))
                   (map (\<lambda>i. (i, 48)) [0..<k])) =
         k * 1005480 + min k (n - 1) * 158760"
  using assms
proof (induction k)
  case 0
  then show ?case by (simp add: rendering_def)
next
  case (Suc k)
  have m: "min (Suc k) (n - 1) = min k (n - 1) + (if Suc k < n then 1 else 0)"
    using Suc.prems by auto
  have "length (rendering (audioFor tone freq (countsFor 1200)) (replicate n (CHR ''0''))
                   (map (\<lambda>i. (i, 48)) [0..<Suc k])) =
        length (rendering (audioFor tone freq (countsFor 1200)) (replicate n (CHR ''0''))
                   (map (\<lambda>i. (i, 48)) [0..<k]))
        + length (segment (audioFor tone freq (countsFor 1200)) (replicate n (CHR ''0''))
                    (k, 48))"
    by (simp add: rendering_append rendering_def)
  also have "\<dots> = (k * 1005480 + min k (n - 1) * 158760)
                     + (1005480 + (if Suc k < n then 158760 else 0))"
    using Suc by (simp only: zeros_segment)
  finally show ?case unfolding m by (simp add: algebra_simps)
qed

lemma zeros_synthesis:
  "length (synthesis tbl tone (replicate 1845 (CHR ''0'')) 1 freq) = 2147864040"
  using zeros_rendering [of 1845 1845 tone freq]
  by (simp add: synthesis_def zeros_items timeUnit_1 del: upt_rec_numeral)

subsection \<open>The layout\<close>

text \<open>
  Claim C8, as stated, fails for long outputs. The two size fields of the header are 32 bits
  wide, and \<open>writeWavHeader\<close> converts the 64-bit sizes with \<open>uint32\<close>, which keeps the
  low 32 bits. The text of 1845 characters "0" at 1 word per minute is returned by both files
  as 2147864040 samples, which are 4295728080 data bytes; the length field of the container
  reads 760784 and the size field reads 760820, not 4295728116.
\<close>

theorem wav_size_wraps:
  "generateMorseAudio caseRows sineTone (replicate 1845 (CHR ''0'')) 1 600 =
     Inr (synthesis caseRows sineTone (replicate 1845 (CHR ''0'')) 1 600, 2147864040) \<and>
   generateMorseAudio_inline caseRows sineTone (replicate 1845 (CHR ''0'')) 1 600 =
     Inr (synthesis caseRows sineTone (replicate 1845 (CHR ''0'')) 1 600, 2147864040) \<and>
   length (concat (map le16 (synthesis caseRows sineTone (replicate 1845 (CHR ''0'')) 1 600))) =
     4295728080 \<and>
   riffSizeField
     (wavBuffer (synthesis caseRows sineTone (replicate 1845 (CHR ''0'')) 1 600, 2147864040)) =
     760820 \<and>
   dataSizeField
     (wavBuffer (synthesis caseRows sineTone (replicate 1845 (CHR ''0'')) 1 600, 2147864040)) =
     760784 \<and>
   riffSizeField
     (wavBuffer (synthesis caseRows sineTone (replicate 1845 (CHR ''0'')) 1 600, 2147864040)) \<noteq>
     36 + length (concat (map le16
                    (synthesis caseRows sineTone (replicate 1845 (CHR ''0'')) 1 600)))"
proof -
  define S where "S = synthesis caseRows sineTone (replicate 1845 (CHR ''0'')) 1 600"
  have l: "length S = 2147864040" unfolding S_def by (rule zeros_synthesis)
  have t: "0 \<le> sint (timeUnit 1)" by (simp add: timeUnit_1)
  have 1: "generateMorseAudio caseRows sineTone (replicate 1845 (CHR ''0'')) 1 600 =
             Inr (S, 2147864040)"
    using generateMorseAudio_nonneg(1) [OF t, of caseRows sineTone "replicate 1845 (CHR ''0'')" 600]
    by (simp add: S_def [symmetric] l)
  have 2: "generateMorseAudio_inline caseRows sineTone (replicate 1845 (CHR ''0'')) 1 600 =
             Inr (S, 2147864040)"
    using generateMorseAudio_nonneg(2) [OF t, of caseRows sineTone "replicate 1845 (CHR ''0'')" 600]
    by (simp add: S_def [symmetric] l)
  have 3: "length (concat (map le16 S)) = 4295728080" by (simp add: length_le16s l)
  have 4: "riffSizeField (wavBuffer (S, 2147864040)) = 760820"
    by (simp add: riffSizeField_wavBuffer)
  have 5: "dataSizeField (wavBuffer (S, 2147864040)) = 760784"
    by (simp add: dataSizeField_wavBuffer)
  have 6: "riffSizeField (wavBuffer (S, 2147864040)) \<noteq> 36 + length (concat (map le16 S))"
    by (simp add: 3 4)
  show ?thesis unfolding S_def [symmetric] by (intro conjI 1 2 3 4 5 6)
qed

text \<open>
  Claim C8, amended. The container that \<open>main\<close> builds from the result of
  \<open>generateMorseAudio\<close>, of either file, is: "RIFF", a 4-byte size field, "WAVE", "fmt ",
  the sub-chunk size 16, the PCM marker 1, the channel count 1, the sample rate 44100, the
  byte rate 44100 * 2, the block alignment 2, the bits per sample 16, "data", a 4-byte length
  field, and the samples, two bytes each. Every field is little-endian (\<open>uint_le\<close> reads
  \<open>le32\<close> and \<open>le16\<close> back). The length field is the number of data bytes modulo
  \<open>2 ^ 32\<close> and the size field is 36 more than the number of data bytes, modulo
  \<open>2 ^ 32\<close>; they are these numbers themselves when the size is below \<open>2 ^ 32\<close>. For the
  empty text the result is the empty sequence, the length field is 0 and the size field is 36.
\<close>

theorem wav_layout:
  "((generateMorseAudio tbl tone text wpm freq = Inr (out, tot) \<or>
     generateMorseAudio_inline tbl tone text wpm freq = Inr (out, tot)) \<longrightarrow>
      (\<exists>riffSize dataSize.
         wavBuffer (out, tot) =
           bytesOf ''RIFF'' @ riffSize @ bytesOf ''WAVE'' @ bytesOf ''fmt ''
             @ le32 16 @ le16 1 @ le16 1 @ le32 44100 @ le32 (44100 * 2) @ le16 2 @ le16 16
             @ bytesOf ''data'' @ dataSize @ concat (map le16 out) \<and>
         length riffSize = 4 \<and>
         uint_le riffSize = (36 + length (concat (map le16 out))) mod 2 ^ 32 \<and>
         length dataSize = 4 \<and>
         uint_le dataSize = length (concat (map le16 out)) mod 2 ^ 32 \<and>
         (36 + length (concat (map le16 out)) < 2 ^ 32 \<longrightarrow>
            uint_le riffSize = 36 + length (concat (map le16 out)) \<and>
            uint_le dataSize = length (concat (map le16 out))))) \<and>
   length (le32 x) = 4 \<and> uint_le (le32 x) = unat x \<and>
   length (le16 y) = 2 \<and> uint_le (le16 y) = unat y \<and>
   ((generateMorseAudio tbl tone [] wpm freq = Inr r \<or>
     generateMorseAudio_inline tbl tone [] wpm freq = Inr r) \<longrightarrow>
      r = ([], 0) \<and>
      wavBuffer r =
        [0x52, 0x49, 0x46, 0x46, 36, 0, 0, 0, 0x57, 0x41, 0x56, 0x45,
         0x66, 0x6D, 0x74, 0x20, 16, 0, 0, 0, 1, 0, 1, 0, 0x44, 0xAC, 0, 0,
         0x88, 0x58, 1, 0, 2, 0, 16, 0, 0x64, 0x61, 0x74, 0x61, 0, 0, 0, 0])"
proof (intro conjI impI)
  assume g: "generateMorseAudio tbl tone text wpm freq = Inr (out, tot) \<or>
     generateMorseAudio_inline tbl tone text wpm freq = Inr (out, tot)"
  define n where "n = length out"
  have tot: "tot = int n"
    using g generateMorseAudio_Inr(2) [of tbl tone "text" wpm freq out tot]
      generateMorseAudio_inline_Inr [of tbl tone "text" wpm freq out tot]
    by (auto simp: n_def)
  define dataSize :: go_int where "dataSize = word_of_int tot * 2"
  have d: "dataSize = word_of_nat (2 * n)" by (simp add: dataSize_def tot)
  have r: "36 + dataSize = word_of_nat (36 + 2 * n)" by (simp add: d)
  have 1: "uint_le (le32 (ucast (36 + dataSize))) = (36 + 2 * n) mod 2 ^ 32"
    unfolding r uint_le_le32 by (rule ucast_size)
  have 2: "uint_le (le32 (ucast dataSize)) = (2 * n) mod 2 ^ 32"
    unfolding d uint_le_le32 by (rule ucast_size)
  have 3: "wavBuffer (out, tot) =
           bytesOf ''RIFF'' @ le32 (ucast (36 + dataSize)) @ bytesOf ''WAVE'' @ bytesOf ''fmt ''
             @ le32 16 @ le16 1 @ le16 1 @ le32 44100 @ le32 (44100 * 2) @ le16 2 @ le16 16
             @ bytesOf ''data'' @ le32 (ucast dataSize) @ concat (map le16 out)"
    by (simp only: wavBuffer_header header_fields dataSize_def append_assoc)
  have 4: "length (le32 (ucast (36 + dataSize))) = 4" "length (le32 (ucast dataSize)) = 4"
    by (simp_all add: le32_def)
  have 5: "36 + 2 * n < 2 ^ 32 \<longrightarrow>
             uint_le (le32 (ucast (36 + dataSize))) = 36 + 2 * n \<and>
             uint_le (le32 (ucast dataSize)) = 2 * n"
    unfolding 1 2 by simp
  from 1 2 3 4 5 show "\<exists>riffSize dataSize.
         wavBuffer (out, tot) =
           bytesOf ''RIFF'' @ riffSize @ bytesOf ''WAVE'' @ bytesOf ''fmt ''
             @ le32 16 @ le16 1 @ le16 1 @ le32 44100 @ le32 (44100 * 2) @ le16 2 @ le16 16
             @ bytesOf ''data'' @ dataSize @ concat (map le16 out) \<and>
         length riffSize = 4 \<and>
         uint_le riffSize = (36 + length (concat (map le16 out))) mod 2 ^ 32 \<and>
         length dataSize = 4 \<and>
         uint_le dataSize = length (concat (map le16 out)) mod 2 ^ 32 \<and>
         (36 + length (concat (map le16 out)) < 2 ^ 32 \<longrightarrow>
            uint_le riffSize = 36 + length (concat (map le16 out)) \<and>
            uint_le dataSize = length (concat (map le16 out)))"
    unfolding length_le16s n_def [symmetric] by blast
next
  show "length (le32 x) = 4" by (simp add: le32_def)
  show "uint_le (le32 x) = unat x" by (rule uint_le_le32)
  show "length (le16 y) = 2" by (simp add: le16_def)
  show "uint_le (le16 y) = unat y" by (rule uint_le_le16)
next
  assume "generateMorseAudio tbl tone [] wpm freq = Inr r \<or>
     generateMorseAudio_inline tbl tone [] wpm freq = Inr r"
  then show e: "r = ([], 0)"
  proof
    assume "generateMorseAudio tbl tone [] wpm freq = Inr r"
    then have "generateMorseAudio tbl tone [] wpm freq = Inr (fst r, snd r)" by simp
    from generateMorseAudio_Inr [OF this] show ?thesis
      by (simp add: synthesis_empty prod_eq_iff)
  next
    assume "generateMorseAudio_inline tbl tone [] wpm freq = Inr r"
    then show ?thesis by (simp add: inline_empty)
  qed
  show "wavBuffer r =
        [0x52, 0x49, 0x46, 0x46, 36, 0, 0, 0, 0x57, 0x41, 0x56, 0x45,
         0x66, 0x6D, 0x74, 0x20, 16, 0, 0, 0, 1, 0, 1, 0, 0x44, 0xAC, 0, 0,
         0x88, 0x58, 1, 0, 2, 0, 16, 0, 0x64, 0x61, 0x74, 0x61, 0, 0, 0, 0]"
    unfolding e by (rule empty_container)
qed

theorem wav_layout_witness:
  "generateMorseAudio caseRows ramp ''E'' 1200 600 = Inr (map (ramp 600) [0..<44], 44) \<and>
   36 + length (concat (map le16 (map (ramp 600) [0..<44]))) < (2::nat) ^ 32 \<and>
   generateMorseAudio caseRows ramp [] 1200 600 = Inr ([], 0) \<and>
   (\<exists>riffSize dataSize.
      wavBuffer (map (ramp 600) [0..<44], 44) =
        bytesOf ''RIFF'' @ riffSize @ bytesOf ''WAVE'' @ bytesOf ''fmt ''
          @ le32 16 @ le16 1 @ le16 1 @ le32 44100 @ le32 (44100 * 2) @ le16 2 @ le16 16
          @ bytesOf ''data'' @ dataSize @ concat (map le16 (map (ramp 600) [0..<44])) \<and>
      length riffSize = 4 \<and>
      uint_le riffSize = 36 + length (concat (map le16 (map (ramp 600) [0..<44]))) \<and>
      length dataSize = 4 \<and>
      uint_le dataSize = length (concat (map le16 (map (ramp 600) [0..<44])))) \<and>
   wavBuffer ([], 0) =
     [0x52, 0x49, 0x46, 0x46, 36, 0, 0, 0, 0x57, 0x41, 0x56, 0x45,
      0x66, 0x6D, 0x74, 0x20, 16, 0, 0, 0, 1, 0, 1, 0, 0x44, 0xAC, 0, 0,
      0x88, 0x58, 1, 0, 2, 0, 16, 0, 0x64, 0x61, 0x74, 0x61, 0, 0, 0, 0]"
proof -
  have t: "0 \<le> sint (timeUnit 1200)" by (simp add: timeUnit_1200)
  have h1: "generateMorseAudio caseRows ramp ''E'' 1200 600 = Inr (map (ramp 600) [0..<44], 44)"
    using generateMorseAudio_nonneg(1) [OF t, of caseRows ramp "''E''" 600]
    by (simp add: synthesis_E del: upt_rec_numeral)
  have h2: "36 + length (concat (map le16 (map (ramp 600) [0..<44]))) < (2::nat) ^ 32"
    unfolding length_le16s by simp
  have h3: "generateMorseAudio caseRows ramp [] 1200 600 = Inr ([], 0)"
    using generateMorseAudio_nonneg(1) [OF t, of caseRows ramp "[]" 600]
    by (simp add: synthesis_empty)
  note th = wav_layout [of caseRows ramp "''E''" 1200 600 "map (ramp 600) [0..<44]" 44 36 1
      "([], 0)"]
  from th [THEN conjunct1] h1 obtain riffSize dataSize where
    w: "wavBuffer (map (ramp 600) [0..<44], 44) =
        bytesOf ''RIFF'' @ riffSize @ bytesOf ''WAVE'' @ bytesOf ''fmt ''
          @ le32 16 @ le16 1 @ le16 1 @ le32 44100 @ le32 (44100 * 2) @ le16 2 @ le16 16
          @ bytesOf ''data'' @ dataSize @ concat (map le16 (map (ramp 600) [0..<44]))"
    and l: "length riffSize = 4" "length dataSize = 4"
    and x: "36 + length (concat (map le16 (map (ramp 600) [0..<44]))) < (2::nat) ^ 32 \<longrightarrow>
            uint_le riffSize = 36 + length (concat (map le16 (map (ramp 600) [0..<44]))) \<and>
            uint_le dataSize = length (concat (map le16 (map (ramp 600) [0..<44])))"
    by blast
  from x h2 have y: "uint_le riffSize = 36 + length (concat (map le16 (map (ramp 600) [0..<44])))"
    "uint_le dataSize = length (concat (map le16 (map (ramp 600) [0..<44])))"
    by blast+
  from w l y have a: "\<exists>riffSize dataSize.
      wavBuffer (map (ramp 600) [0..<44], 44) =
        bytesOf ''RIFF'' @ riffSize @ bytesOf ''WAVE'' @ bytesOf ''fmt ''
          @ le32 16 @ le16 1 @ le16 1 @ le32 44100 @ le32 (44100 * 2) @ le16 2 @ le16 16
          @ bytesOf ''data'' @ dataSize @ concat (map le16 (map (ramp 600) [0..<44])) \<and>
      length riffSize = 4 \<and>
      uint_le riffSize = 36 + length (concat (map le16 (map (ramp 600) [0..<44]))) \<and>
      length dataSize = 4 \<and>
      uint_le dataSize = length (concat (map le16 (map (ramp 600) [0..<44])))"
    by blast
  from th h3 have b: "wavBuffer ([], 0) =
     [0x52, 0x49, 0x46, 0x46, 36, 0, 0, 0, 0x57, 0x41, 0x56, 0x45,
      0x66, 0x6D, 0x74, 0x20, 16, 0, 0, 0, 1, 0, 1, 0, 0x44, 0xAC, 0, 0,
      0x88, 0x58, 1, 0, 2, 0, 16, 0, 0x64, 0x61, 0x74, 0x61, 0, 0, 0, 0]"
    by blast
  from h1 h2 h3 a b show ?thesis by (intro conjI)
qed

end
